theory Spec2Isabelle
  imports Main "HOL-Library.Word" "HOL-Library.Log_Nat"
begin

unbundle bit_operations_syntax

section \<open>spc2wav: data model\<close>

text \<open>
  A shallow embedding of \<^verbatim>\<open>spc2wav.c\<close>. The C types are read as on the usual
  platforms: \<^verbatim>\<open>unsigned int\<close> and \<^verbatim>\<open>uint32_t\<close> are \<open>32 word\<close>,
  \<^verbatim>\<open>uint64_t\<close> is \<open>64 word\<close>, \<^verbatim>\<open>int16_t\<close> is \<open>16 word\<close> read with
  \<open>sint\<close>, \<^verbatim>\<open>uint8_t\<close> is \<open>8 word\<close>. A \<^verbatim>\<open>size_t\<close> length is the length of
  an object in memory; its arithmetic does not wrap and is done in \<open>nat\<close>, and every
  conversion of it to a 32-bit value is written \<open>of_nat\<close>, which reduces modulo \<open>2 ^ 32\<close>.
\<close>

type_synonym byte = "8 word"

text \<open>
  The characters of a string as bytes, and a C string literal: its characters and the
  terminating zero byte.
\<close>

definition bytes_of :: "string \<Rightarrow> byte list" where
  "bytes_of cs = map of_char cs"

definition c_str :: "string \<Rightarrow> byte list" where
  "c_str cs = bytes_of cs @ [0]"

text \<open>
  What the C standard leaves undefined, and the error return of the tag builder, are
  values of the model: a function that can fail returns \<open>fault + 'a\<close>, and \<open>then_do\<close>
  runs the rest of a function body after a step that did not fail.
\<close>

datatype fault =
    AllocFailed   \<comment> \<open>\<^verbatim>\<open>realloc\<close> returned \<^verbatim>\<open>NULL\<close>: the function returns -1\<close>
  | OutOfBounds   \<comment> \<open>a read or a write outside the object\<close>
  | DivByZero     \<comment> \<open>a division whose divisor is zero\<close>
  | OutOfRange    \<comment> \<open>a floating value converted to an integer type that cannot hold it\<close>

definition then_do :: "fault + 'a \<Rightarrow> ('a \<Rightarrow> fault + 'b) \<Rightarrow> fault + 'b" where
  "then_do r k = (case r of Inl e \<Rightarrow> Inl e | Inr v \<Rightarrow> k v)"

section \<open>Binary packing primitives\<close>

text \<open>
  \<^verbatim>\<open>pack_int16le\<close>, \<^verbatim>\<open>pack_uint16le\<close>, \<^verbatim>\<open>pack_uint32le\<close> and
  \<^verbatim>\<open>pack_uint32_syncsafe\<close> store bytes at a destination; the model returns the bytes
  stored, in order. The shift of the signed \<^verbatim>\<open>int16_t\<close> is arithmetic.
\<close>

definition pack_int16le :: "16 word \<Rightarrow> byte list" where
  "pack_int16le n = [ucast n, ucast (signed_drop_bit 8 n)]"

definition pack_uint16le :: "16 word \<Rightarrow> byte list" where
  "pack_uint16le n = [ucast n, ucast (drop_bit 8 n)]"

definition pack_uint32le :: "32 word \<Rightarrow> byte list" where
  "pack_uint32le n =
     [ucast n, ucast (drop_bit 8 n), ucast (drop_bit 16 n), ucast (drop_bit 24 n)]"

definition pack_uint32_syncsafe :: "32 word \<Rightarrow> byte list" where
  "pack_uint32_syncsafe val =
     [ucast (drop_bit 21 (val AND 0x0FE00000)),
      ucast (drop_bit 14 (val AND 0x001FC000)),
      ucast (drop_bit 7 (val AND 0x00003F80)),
      ucast (val AND 0x0000007F)]"

text \<open>
  The readers are not in the source. They follow the specification's words: a 32-bit
  little-endian integer, and a syncsafe integer reassembled from 7 bits per byte, the
  most significant group first.
\<close>

fun uint32le_decode :: "byte list \<Rightarrow> 32 word" where
  "uint32le_decode [b0, b1, b2, b3] =
     ucast b0 OR push_bit 8 (ucast b1) OR push_bit 16 (ucast b2) OR push_bit 24 (ucast b3)"
| "uint32le_decode _ = 0"

fun syncsafe_decode :: "byte list \<Rightarrow> 32 word" where
  "syncsafe_decode [b0, b1, b2, b3] =
     push_bit 21 (ucast b0 AND 0x7F) OR push_bit 14 (ucast b1 AND 0x7F) OR
     push_bit 7 (ucast b2 AND 0x7F) OR (ucast b3 AND 0x7F)"
| "syncsafe_decode _ = 0"

section \<open>Growable byte buffer\<close>

text \<open>
  \<^verbatim>\<open>struct str_buffer\<close>: the storage \<open>x\<close> (the bytes of the allocated block), the
  capacity \<open>a\<close> and the used length \<open>len\<close>.
\<close>

record str_buffer =
  x :: "byte list"
  a :: "32 word"
  len :: "32 word"

text \<open>
  Storing the bytes \<open>bs\<close> at offset \<open>off\<close> of a block. A store that does not fit the
  block is undefined in C; here it is \<open>OutOfBounds\<close>.
\<close>

definition poke :: "byte list \<Rightarrow> nat \<Rightarrow> byte list \<Rightarrow> fault + byte list" where
  "poke mem off bs =
     (if off + length bs \<le> length mem
      then Inr (take off mem @ bs @ drop (off + length bs) mem)
      else Inl OutOfBounds)"

text \<open>
  \<^verbatim>\<open>realloc (p, n)\<close>. Whether the allocator grants a request is not decided by the
  program: \<open>avail n\<close> says whether a block of \<open>n\<close> bytes can be had. The old contents
  are kept up to the smaller size; the bytes added are indeterminate in C and are 0 here
  (nothing below reads them before they are written).
\<close>

definition realloc :: "(nat \<Rightarrow> bool) \<Rightarrow> byte list \<Rightarrow> nat \<Rightarrow> byte list option" where
  "realloc avail p n =
     (if avail n then Some (take n p @ replicate (n - length p) 0) else None)"

text \<open>
  The growth loop that opens \<^verbatim>\<open>id3_add_text\<close>, \<^verbatim>\<open>id3_add_comment\<close> and
  \<^verbatim>\<open>id3_add_private\<close>, with \<open>need\<close> the payload length of the frame:
  \<^verbatim>\<open>while (s->len + 10 + need > s->a) { t = realloc (s->x, s->a + 512);
  if (t == NULL) return -1; s->x = t; s->a += 512; }\<close>.
  The sum \<^verbatim>\<open>s->len + 10\<close> and the new capacity \<^verbatim>\<open>s->a + 512\<close> are 32-bit and
  wrap. When the capacity wraps the loop need not end, so the loop is a partial function:
  \<open>None\<close> is the run that never returns.
\<close>

partial_function (option) grow_loop ::
  "(nat \<Rightarrow> bool) \<Rightarrow> nat \<Rightarrow> str_buffer \<Rightarrow> (fault + str_buffer) option" where
  "grow_loop avail need s =
     (if unat (len s + 10) + need > unat (a s)
      then (case realloc avail (x s) (unat (a s + 512)) of
              None \<Rightarrow> Some (Inl AllocFailed)
            | Some t \<Rightarrow> grow_loop avail need (s\<lparr>x := t, a := a s + 512\<rparr>))
      else Some (Inr s))"

text \<open>
  The two ways the builder appends: \<^verbatim>\<open>memcpy (&s->x[s->len], src, n); s->len += n\<close>
  (also used for \<^verbatim>\<open>pack_uint32_syncsafe (&s->x[s->len], v); s->len += 4\<close>), and
  \<^verbatim>\<open>s->x[s->len++] = b\<close>. Reading more than \<open>src\<close> holds is \<open>OutOfBounds\<close>.
\<close>

definition buf_write :: "str_buffer \<Rightarrow> byte list \<Rightarrow> nat \<Rightarrow> fault + str_buffer" where
  "buf_write s src n =
     (if n \<le> length src
      then then_do (poke (x s) (unat (len s)) (take n src))
             (\<lambda>m. Inr (s\<lparr>x := m, len := len s + of_nat n\<rparr>))
      else Inl OutOfBounds)"

definition buf_putc :: "str_buffer \<Rightarrow> byte \<Rightarrow> fault + str_buffer" where
  "buf_putc s b =
     then_do (poke (x s) (unat (len s)) [b]) (\<lambda>m. Inr (s\<lparr>x := m, len := len s + 1\<rparr>))"

text \<open>
  \<^verbatim>\<open>strlen\<close> and \<^verbatim>\<open>strnlen\<close> on a character array. An array with no zero byte
  (within the first \<open>maxlen\<close> bytes, for \<^verbatim>\<open>strnlen\<close> on an array shorter than
  that) is read past its end.
\<close>

definition strlen :: "byte list \<Rightarrow> fault + nat" where
  "strlen str =
     (if 0 \<in> set str then Inr (length (takeWhile (\<lambda>c. c \<noteq> 0) str)) else Inl OutOfBounds)"

definition strnlen :: "byte list \<Rightarrow> nat \<Rightarrow> fault + nat" where
  "strnlen str maxlen =
     (if 0 \<in> set (take maxlen str) \<or> maxlen \<le> length str
      then Inr (length (takeWhile (\<lambda>c. c \<noteq> 0) (take maxlen str)))
      else Inl OutOfBounds)"

section \<open>Metadata tag builder\<close>

text \<open>
  \<^verbatim>\<open>id3_update_len\<close> stores the syncsafe form of \<^verbatim>\<open>s->len - 10\<close> at offset 6;
  \<^verbatim>\<open>id3_init\<close> sets the used length to 10, stores the magic, the version 4 and two
  zero bytes, and updates the size field.
\<close>

definition id3_update_len :: "str_buffer \<Rightarrow> fault + str_buffer" where
  "id3_update_len s =
     then_do (poke (x s) 6 (pack_uint32_syncsafe (len s - 10))) (\<lambda>m. Inr (s\<lparr>x := m\<rparr>))"

definition id3_init :: "str_buffer \<Rightarrow> fault + str_buffer" where
  "id3_init s =
     then_do (poke (x s) 0 (bytes_of ''ID3'' @ [0x04, 0x00, 0x00]))
       (\<lambda>m. id3_update_len (s\<lparr>len := 10, x := m\<rparr>))"

text \<open>
  The three frame writers, statement by statement. \<open>data\<close> is the array the pointer
  refers to and \<open>datalen\<close> the count passed with it. The result \<open>Some (Inr s')\<close> is the
  return value 0 with the buffer \<open>s'\<close>, \<open>Some (Inl AllocFailed)\<close> is the return value
  -1, and \<open>None\<close> is a growth loop that does not end.
\<close>

definition id3_add_text ::
  "(nat \<Rightarrow> bool) \<Rightarrow> str_buffer \<Rightarrow> byte list \<Rightarrow> byte list \<Rightarrow> nat \<Rightarrow> (fault + str_buffer) option" where
  "id3_add_text avail s frame data datalen =
     map_option (\<lambda>r.
       then_do r (\<lambda>s.
       then_do (buf_write s frame 4) (\<lambda>s.
       then_do (buf_write s (pack_uint32_syncsafe (of_nat (1 + datalen + 1))) 4) (\<lambda>s.
       then_do (buf_putc s 0x00) (\<lambda>s.
       then_do (buf_putc s 0x00) (\<lambda>s.
       then_do (buf_putc s 0x03) (\<lambda>s.
       then_do (buf_write s data datalen) (\<lambda>s.
       then_do (buf_putc s 0x00) id3_update_len))))))))
     (grow_loop avail (1 + datalen + 1) s)"

definition id3_add_comment ::
  "(nat \<Rightarrow> bool) \<Rightarrow> str_buffer \<Rightarrow> byte list \<Rightarrow> nat \<Rightarrow> (fault + str_buffer) option" where
  "id3_add_comment avail s data datalen =
     map_option (\<lambda>r.
       then_do r (\<lambda>s.
       then_do (buf_putc s (of_char CHR ''C'')) (\<lambda>s.
       then_do (buf_putc s (of_char CHR ''O'')) (\<lambda>s.
       then_do (buf_putc s (of_char CHR ''M'')) (\<lambda>s.
       then_do (buf_putc s (of_char CHR ''M'')) (\<lambda>s.
       then_do (buf_write s (pack_uint32_syncsafe (of_nat (1 + 3 + datalen + 1 + 1))) 4) (\<lambda>s.
       then_do (buf_putc s 0x00) (\<lambda>s.
       then_do (buf_putc s 0x00) (\<lambda>s.
       then_do (buf_putc s 0x03) (\<lambda>s.
       then_do (buf_putc s (of_char CHR ''e'')) (\<lambda>s.
       then_do (buf_putc s (of_char CHR ''n'')) (\<lambda>s.
       then_do (buf_putc s (of_char CHR ''g'')) (\<lambda>s.
       then_do (buf_putc s 0x00) (\<lambda>s.
       then_do (buf_write s data datalen) (\<lambda>s.
       then_do (buf_putc s 0x00) id3_update_len)))))))))))))))
     (grow_loop avail (1 + 3 + datalen + 1 + 1) s)"

definition id3_add_private ::
  "(nat \<Rightarrow> bool) \<Rightarrow> str_buffer \<Rightarrow> byte list \<Rightarrow> byte list \<Rightarrow> nat \<Rightarrow>
     (fault + str_buffer) option" where
  "id3_add_private avail s description data datalen =
     (case strlen description of
        Inl e \<Rightarrow> Some (Inl e)
      | Inr d \<Rightarrow>
          map_option (\<lambda>r.
            then_do r (\<lambda>s.
            then_do (buf_putc s (of_char CHR ''T'')) (\<lambda>s.
            then_do (buf_putc s (of_char CHR ''X'')) (\<lambda>s.
            then_do (buf_putc s (of_char CHR ''X'')) (\<lambda>s.
            then_do (buf_putc s (of_char CHR ''X'')) (\<lambda>s.
            then_do (buf_write s (pack_uint32_syncsafe (of_nat (1 + d + 1 + datalen + 1))) 4) (\<lambda>s.
            then_do (buf_putc s 0x00) (\<lambda>s.
            then_do (buf_putc s 0x00) (\<lambda>s.
            then_do (buf_putc s 0x03) (\<lambda>s.
            then_do (buf_write s description d) (\<lambda>s.
            then_do (buf_putc s 0x00) (\<lambda>s.
            then_do (buf_write s data datalen) (\<lambda>s.
            then_do (buf_putc s 0x00) id3_update_len)))))))))))))
          (grow_loop avail (1 + d + 1 + datalen + 1) s))"

section \<open>The tag section of main\<close>

text \<open>
  Modelled from the spec: the metadata block \<^verbatim>\<open>id666\<close>, whose declaration
  (\<^verbatim>\<open>id666/id666.h\<close>) is not among the sources. It holds the string fields song, game,
  dumper, comment, artist and publisher, here the character arrays, and a year, -1 when
  unknown. Only the fields that \<open>main\<close> reads to build the tag are kept.
\<close>

record id666 =
  song :: "byte list"
  game :: "byte list"
  dumper :: "byte list"
  comment :: "byte list"
  artist :: "byte list"
  publisher :: "byte list"
  year :: int

text \<open>
  Sequencing for the frame writers, which may fail or not return: the rest runs on the
  buffer of a call that returned 0; on -1 \<open>main\<close> returns 1 at once.
\<close>

definition and_then ::
  "(fault + 'a) option \<Rightarrow> ('a \<Rightarrow> (fault + 'b) option) \<Rightarrow> (fault + 'b) option" where
  "and_then m k = (case m of None \<Rightarrow> None | Some (Inl e) \<Rightarrow> Some (Inl e) | Some (Inr v) \<Rightarrow> k v)"

text \<open>
  \<^verbatim>\<open>snprintf (yearTmp, n, "%d", i)\<close>: the decimal digits of \<open>i\<close>, a minus sign
  before them when it is negative, cut to \<open>n - 1\<close> characters and terminated.
\<close>

fun dec_digits :: "nat \<Rightarrow> byte list" where
  "dec_digits n = (if n < 10 then [48 + of_nat n] else dec_digits (n div 10) @ [48 + of_nat (n mod 10)])"

definition snprintf_d :: "nat \<Rightarrow> int \<Rightarrow> byte list" where
  "snprintf_d n i =
     take (n - 1) (if i < 0 then of_char CHR ''-'' # dec_digits (nat (- i)) else dec_digits (nat i))
     @ [0]"

text \<open>
  The steps of \<open>main\<close> under \<^verbatim>\<open>if (embedId3)\<close>. A text field:
  \<^verbatim>\<open>if (strnlen (f, 256)) { if (id3_add_text (&id3_buffer, frame, f, strnlen (f, 256))
  == -1) return 1; }\<close>. The dumper field:
  \<^verbatim>\<open>if (strnlen (id6.dumper, 256)) { if (id3_add_private (&id3_buffer, "spc_dumper",
  id6.dumper, strnlen (id6.game, 256)) == -1) return 1; }\<close>: the length passed is that of
  the game field. The comment field goes through \<^verbatim>\<open>id3_add_comment\<close>, and the year,
  when it is not -1, is printed into a 5-byte array and added as text.
\<close>

definition tag_text_field ::
  "(nat \<Rightarrow> bool) \<Rightarrow> str_buffer \<Rightarrow> string \<Rightarrow> byte list \<Rightarrow> (fault + str_buffer) option" where
  "tag_text_field avail s frame field =
     (case strnlen field 256 of
        Inl e \<Rightarrow> Some (Inl e)
      | Inr n \<Rightarrow> if n \<noteq> 0 then id3_add_text avail s (c_str frame) field n else Some (Inr s))"

definition tag_dumper :: "(nat \<Rightarrow> bool) \<Rightarrow> str_buffer \<Rightarrow> id666 \<Rightarrow> (fault + str_buffer) option" where
  "tag_dumper avail s id6 =
     (case strnlen (dumper id6) 256 of
        Inl e \<Rightarrow> Some (Inl e)
      | Inr n \<Rightarrow>
          if n \<noteq> 0
          then (case strnlen (game id6) 256 of
                  Inl e \<Rightarrow> Some (Inl e)
                | Inr g \<Rightarrow> id3_add_private avail s (c_str ''spc_dumper'') (dumper id6) g)
          else Some (Inr s))"

definition tag_comment :: "(nat \<Rightarrow> bool) \<Rightarrow> str_buffer \<Rightarrow> id666 \<Rightarrow> (fault + str_buffer) option" where
  "tag_comment avail s id6 =
     (case strnlen (comment id6) 256 of
        Inl e \<Rightarrow> Some (Inl e)
      | Inr n \<Rightarrow> if n \<noteq> 0 then id3_add_comment avail s (comment id6) n else Some (Inr s))"

definition tag_year :: "(nat \<Rightarrow> bool) \<Rightarrow> str_buffer \<Rightarrow> id666 \<Rightarrow> (fault + str_buffer) option" where
  "tag_year avail s id6 =
     (if year id6 \<noteq> - 1
      then
        let yearTmp = snprintf_d 5 (year id6) in
        (case strlen yearTmp of
           Inl e \<Rightarrow> Some (Inl e)
         | Inr n \<Rightarrow> id3_add_text avail s (c_str ''TDRC'') yearTmp n)
      else Some (Inr s))"

text \<open>Lines 213 to 238 of \<open>main\<close>: \<^verbatim>\<open>id3_init\<close>, then the frames in order.\<close>

definition main_tags ::
  "(nat \<Rightarrow> bool) \<Rightarrow> bool \<Rightarrow> id666 \<Rightarrow> str_buffer \<Rightarrow> (fault + str_buffer) option" where
  "main_tags avail embedId3 id6 id3_buffer =
     and_then (Some (id3_init id3_buffer)) (\<lambda>s.
     if embedId3
     then
       and_then (tag_text_field avail s ''TIT2'' (song id6)) (\<lambda>s.
       and_then (tag_text_field avail s ''TALB'' (game id6)) (\<lambda>s.
       and_then (tag_dumper avail s id6) (\<lambda>s.
       and_then (tag_comment avail s id6) (\<lambda>s.
       and_then (tag_text_field avail s ''TPE1'' (artist id6)) (\<lambda>s.
       and_then (tag_text_field avail s ''TPUB'' (publisher id6)) (\<lambda>s.
       tag_year avail s id6))))))
     else Some (Inr s))"

section \<open>WAV container writer\<close>

text \<open>
  The output stream: the bytes written so far and the number of bytes the device still
  accepts. \<^verbatim>\<open>fwrite (ptr, sz, nmemb, f)\<close> writes as much of \<open>sz * nmemb\<close> bytes as
  there is room for and returns the number of whole items written; asking for more bytes
  than \<open>ptr\<close> holds is \<open>OutOfBounds\<close>.
\<close>

record FILE =
  written :: "byte list"
  room :: nat

definition fwrite :: "byte list \<Rightarrow> nat \<Rightarrow> nat \<Rightarrow> FILE \<Rightarrow> fault + (nat \<times> FILE)" where
  "fwrite ptr sz nmemb f =
     (if length ptr < sz * nmemb then Inl OutOfBounds
      else let k = min (sz * nmemb) (room f)
           in Inr (k div sz, f\<lparr>written := written f @ take k ptr, room := room f - k\<rparr>))"

text \<open>
  \<^verbatim>\<open>if (fwrite (ptr, sz, nmemb, f) != nmemb) return 0;\<close> followed by the rest \<open>k\<close> of
  the function.
\<close>

definition fwrite_all ::
  "byte list \<Rightarrow> nat \<Rightarrow> nat \<Rightarrow> FILE \<Rightarrow> (FILE \<Rightarrow> fault + (int \<times> FILE)) \<Rightarrow> fault + (int \<times> FILE)" where
  "fwrite_all ptr sz nmemb f k =
     then_do (fwrite ptr sz nmemb f) (\<lambda>(c, f). if c \<noteq> nmemb then Inr (0, f) else k f)"

text \<open>
  \<^verbatim>\<open>write_wav_footer\<close> and \<^verbatim>\<open>write_wav_header\<close>, with the value returned and the
  stream afterwards. \<open>tmp\<close> is the 4-byte scratch array; a 16-bit store changes its first
  two bytes. \<^verbatim>\<open>CHANNELS\<close> is 2, \<^verbatim>\<open>SAMPLE_RATE\<close> is 32000 and
  \<^verbatim>\<open>sizeof (int16_t)\<close> is 2. \<^verbatim>\<open>dataSize\<close> is an \<^verbatim>\<open>unsigned int\<close> initialised
  from a 64-bit product.
\<close>

definition write_wav_footer :: "FILE \<Rightarrow> str_buffer \<Rightarrow> fault + (int \<times> FILE)" where
  "write_wav_footer f id3 =
     (if len id3 = 10 then Inr (1, f)
      else
        fwrite_all (c_str ''ID3 '') 1 4 f (\<lambda>f.
        let tmp = pack_uint32le (len id3) in
        fwrite_all tmp 1 4 f (\<lambda>f.
        fwrite_all (x id3) 1 (unat (len id3)) f (\<lambda>f.
        Inr (1, f)))))"

definition write_wav_header :: "FILE \<Rightarrow> 64 word \<Rightarrow> str_buffer \<Rightarrow> fault + (int \<times> FILE)" where
  "write_wav_header f totalFrames id3 =
     (let dataSize = (ucast (totalFrames * 2 * 2) :: 32 word);
          id3Size = (if len id3 > 10 then len id3 + 8 else 0) in
      fwrite_all (c_str ''RIFF'') 1 4 f (\<lambda>f.
      let tmp = pack_uint32le (dataSize + 44 - 8 + id3Size) in
      fwrite_all tmp 1 4 f (\<lambda>f.
      fwrite_all (c_str ''WAVE'') 1 4 f (\<lambda>f.
      fwrite_all (c_str ''fmt '') 1 4 f (\<lambda>f.
      let tmp = pack_uint32le 16 in
      fwrite_all tmp 1 4 f (\<lambda>f.
      let tmp = pack_uint16le 1 @ drop 2 tmp in
      fwrite_all tmp 1 2 f (\<lambda>f.
      let tmp = pack_uint16le 2 @ drop 2 tmp in
      fwrite_all tmp 1 2 f (\<lambda>f.
      let tmp = pack_uint32le 32000 in
      fwrite_all tmp 1 4 f (\<lambda>f.
      let tmp = pack_uint32le (32000 * 2 * 2) in
      fwrite_all tmp 1 4 f (\<lambda>f.
      let tmp = pack_uint16le (2 * 2) @ drop 2 tmp in
      fwrite_all tmp 1 2 f (\<lambda>f.
      let tmp = pack_uint16le (2 * 8) @ drop 2 tmp in
      fwrite_all tmp 1 2 f (\<lambda>f.
      fwrite_all (c_str ''data'') 1 4 f (\<lambda>f.
      let tmp = pack_uint32le dataSize in
      fwrite_all tmp 1 4 f (\<lambda>f.
      Inr (1, f)))))))))))))))"

section \<open>Frame packer\<close>

text \<open>
  \<^verbatim>\<open>pack_frames (d, s, frameCount)\<close>: for each frame the left sample, then the right
  one, as little-endian 16-bit values; the model returns the bytes stored at \<open>d\<close>. The
  index \<^verbatim>\<open>(i*2)+0\<close> is an \<^verbatim>\<open>unsigned int\<close>. A sample read past the end of \<open>s\<close> is
  \<open>OutOfBounds\<close>. The destination \<open>pac\<close> of \<open>main\<close> holds 4096 frames, and \<open>main\<close>
  packs at most 4096 frames at a time.
\<close>

function pack_frames_loop :: "16 word list \<Rightarrow> 32 word \<Rightarrow> 32 word \<Rightarrow> fault + byte list" where
  "pack_frames_loop s i frameCount =
     (if i < frameCount
      then
        if unat (i * 2 + 0) < length s \<and> unat (i * 2 + 1) < length s
        then then_do (pack_frames_loop s (i + 1) frameCount) (\<lambda>d.
               Inr (pack_int16le (s ! unat (i * 2 + 0)) @ pack_int16le (s ! unat (i * 2 + 1)) @ d))
        else Inl OutOfBounds
      else Inr [])"
  by pat_completeness auto

termination
proof (relation "measure (\<lambda>(s, i, frameCount). unat frameCount - unat i)")
  show "wf (measure (\<lambda>(s, i, frameCount). unat frameCount - unat i))"
    by simp
next
  fix s :: "16 word list" and i frameCount :: "32 word"
  assume "i < frameCount"
  then have "unat i < unat frameCount"
    by (simp add: word_less_nat_alt)
  moreover from this have "unat (i + 1) = unat i + 1"
    using unsigned_less [of frameCount, where 'a = nat] by (simp add: unat_word_ariths)
  ultimately show "((s, i + 1, frameCount), s, i, frameCount)
      \<in> measure (\<lambda>(s, i, frameCount). unat frameCount - unat i)"
    by simp
qed

definition pack_frames :: "16 word list \<Rightarrow> 32 word \<Rightarrow> fault + byte list" where
  "pack_frames s frameCount = pack_frames_loop s 0 frameCount"

text \<open>
  \<^verbatim>\<open>write_frames\<close>:
  \<^verbatim>\<open>return fwrite (d, sizeof (int16_t) * CHANNELS, frameCount, f) == frameCount;\<close>
\<close>

definition write_frames :: "FILE \<Rightarrow> byte list \<Rightarrow> 32 word \<Rightarrow> fault + (int \<times> FILE)" where
  "write_frames f d frameCount =
     then_do (fwrite d (2 * 2) (unat frameCount) f)
       (\<lambda>(c, f). Inr (if c = unat frameCount then 1 else 0, f))"

section \<open>Fade envelope\<close>

text \<open>
  The doubles of \<^verbatim>\<open>fade_frames\<close>. A finite double is \<open>Dbl m e\<close>, the number
  \<open>m * 2 ^ e\<close> (\<open>dbl_val\<close>). \<open>round_to_double n d\<close> is the IEEE 754 binary64 value
  nearest to the fraction \<open>n / d\<close> (\<open>d\<close> positive), ties to the even significand:
  with \<open>e + 52\<close> the integer logarithm of \<open>\<bar>n\<bar> / d\<close>, the quotient
  \<open>\<bar>n\<bar> / (d * 2 ^ e)\<close> lies between \<open>2 ^ 52\<close> and \<open>2 ^ 53\<close> and is rounded to an
  integer. Subnormal numbers and overflow are not modelled: the quotients of two 32-bit
  counts and their products with a 16-bit sample are zero or between \<open>2 ^ - 32\<close> and
  \<open>2 ^ 47\<close> in size. Expressions are evaluated in double precision.
\<close>

datatype double = Dbl (mant: int) (expo: int)

definition dbl_val :: "double \<Rightarrow> rat" where
  "dbl_val d = of_int (mant d) * 2 powi expo d"

definition ilog2_frac :: "int \<Rightarrow> int \<Rightarrow> int" where
  "ilog2_frac n d =
     (let k = bitlen n - bitlen d
      in if (if 0 \<le> k then d * 2 ^ nat k \<le> n else d \<le> n * 2 ^ nat (- k)) then k else k - 1)"

definition round_to_double :: "int \<Rightarrow> int \<Rightarrow> double" where
  "round_to_double n d =
     (if n = 0 then Dbl 0 0
      else
        let e = ilog2_frac \<bar>n\<bar> d - 52;
            num = (if e < 0 then \<bar>n\<bar> * 2 ^ nat (- e) else \<bar>n\<bar>);
            den = (if e < 0 then d else d * 2 ^ nat e);
            q = num div den;
            r = num mod den;
            m = (if 2 * r < den then q else if den < 2 * r then q + 1
                 else if even q then q else q + 1)
        in Dbl (sgn n * m) e)"

text \<open>
  The conversions \<^verbatim>\<open>(double) u\<close> of an \<^verbatim>\<open>unsigned int\<close> and of an
  \<^verbatim>\<open>int16_t\<close> are exact. Division and multiplication round the exact result. A
  division by zero is \<open>DivByZero\<close>. The conversion to \<^verbatim>\<open>int16_t\<close> drops the
  fraction (towards zero); a value outside the range of the type is undefined in C, here
  \<open>OutOfRange\<close>.
\<close>

definition dbl_of_uint :: "32 word \<Rightarrow> double" where
  "dbl_of_uint w = Dbl (uint w) 0"

definition dbl_of_int16 :: "16 word \<Rightarrow> double" where
  "dbl_of_int16 w = Dbl (sint w) 0"

definition dbl_div :: "double \<Rightarrow> double \<Rightarrow> fault + double" where
  "dbl_div p q =
     (if mant q = 0 then Inl DivByZero
      else
        let e = expo p - expo q;
            n = mant p * sgn (mant q) * (if 0 \<le> e then 2 ^ nat e else 1);
            d = \<bar>mant q\<bar> * (if 0 \<le> e then 1 else 2 ^ nat (- e))
        in Inr (round_to_double n d))"

definition dbl_mul :: "double \<Rightarrow> double \<Rightarrow> double" where
  "dbl_mul p q =
     (let e = expo p + expo q
      in round_to_double (mant p * mant q * (if 0 \<le> e then 2 ^ nat e else 1))
           (if 0 \<le> e then 1 else 2 ^ nat (- e)))"

definition int16_of_dbl :: "double \<Rightarrow> fault + 16 word" where
  "int16_of_dbl p =
     (let t = (if 0 \<le> expo p then mant p * 2 ^ nat (expo p)
               else sgn (mant p) * (\<bar>mant p\<bar> div 2 ^ nat (- expo p)))
      in if - 32768 \<le> t \<and> t \<le> 32767 then Inr (word_of_int t) else Inl OutOfRange)"

text \<open>
  \<^verbatim>\<open>data[k] *= fade\<close>, and the factor
  \<^verbatim>\<open>fade = (double)(f-i) / (double)framesFade\<close> of frame \<open>i\<close>.
\<close>

definition scale_sample :: "16 word list \<Rightarrow> nat \<Rightarrow> double \<Rightarrow> fault + 16 word list" where
  "scale_sample data k fade =
     (if k < length data
      then then_do (int16_of_dbl (dbl_mul (dbl_of_int16 (data ! k)) fade))
             (\<lambda>v. Inr (data[k := v]))
      else Inl OutOfBounds)"

definition fade_mult :: "32 word \<Rightarrow> 32 word \<Rightarrow> 32 word \<Rightarrow> fault + double" where
  "fade_mult f i framesFade = dbl_div (dbl_of_uint (f - i)) (dbl_of_uint framesFade)"

text \<open>
  The loop of \<^verbatim>\<open>fade_frames\<close>:
  \<^verbatim>\<open>while (i<frameCount) { fade = ...; data[(i*2)+0] *= fade; data[(i*2)+1] *= fade;
  i++; }\<close>, and the function: the early return when
  \<^verbatim>\<open>framesRem - frameCount > framesFade\<close> (an unsigned difference), then the start
  \<open>i\<close> and the window end \<open>f\<close>.
\<close>

function fade_loop ::
  "16 word list \<Rightarrow> 32 word \<Rightarrow> 32 word \<Rightarrow> 32 word \<Rightarrow> 32 word \<Rightarrow> fault + 16 word list" where
  "fade_loop data i f framesFade frameCount =
     (if i < frameCount
      then
        then_do (fade_mult f i framesFade) (\<lambda>fade.
        then_do (scale_sample data (unat (i * 2 + 0)) fade) (\<lambda>data.
        then_do (scale_sample data (unat (i * 2 + 1)) fade) (\<lambda>data.
        fade_loop data (i + 1) f framesFade frameCount)))
      else Inr data)"
  by pat_completeness auto

termination
proof (relation "measure (\<lambda>(data, i, f, framesFade, frameCount). unat frameCount - unat i)")
  show "wf (measure (\<lambda>(data, i, f, framesFade, frameCount). unat frameCount - unat i))"
    by simp
next
  fix data :: "16 word list" and i f framesFade frameCount :: "32 word"
    and fade :: double and data1 data2 :: "16 word list"
  assume "i < frameCount"
  then have "unat i < unat frameCount"
    by (simp add: word_less_nat_alt)
  moreover from this have "unat (i + 1) = unat i + 1"
    using unsigned_less [of frameCount, where 'a = nat] by (simp add: unat_word_ariths)
  ultimately show "((data2, i + 1, f, framesFade, frameCount), data, i, f, framesFade, frameCount)
      \<in> measure (\<lambda>(data, i, f, framesFade, frameCount). unat frameCount - unat i)"
    by simp
qed

definition fade_frames ::
  "16 word list \<Rightarrow> 32 word \<Rightarrow> 32 word \<Rightarrow> 32 word \<Rightarrow> fault + 16 word list" where
  "fade_frames data framesRem framesFade frameCount =
     (if framesRem - frameCount > framesFade then Inr data
      else
        let (i, f) = (if framesRem > framesFade
                      then (framesRem - framesFade, framesFade + (framesRem - framesFade))
                      else (0, framesRem))
        in fade_loop data i f framesFade frameCount)"

section \<open>Streaming render loop\<close>

text \<open>
  The loop of \<open>main\<close> (lines 264 to 272). The decoder and its filter are collaborators:
  \<open>decode dec n\<close> gives the \<open>n\<close> samples that \<^verbatim>\<open>spc_play\<close> and
  \<^verbatim>\<open>spc_filter_run\<close> leave in \<open>buf\<close>, and the next state of the decoder. The 64-bit
  counts are converted to \<^verbatim>\<open>unsigned int\<close> in the call of \<^verbatim>\<open>fade_frames\<close>. The
  value \<^verbatim>\<open>write_frames\<close> returns is not used.
\<close>

function render_loop ::
  "('d \<Rightarrow> nat \<Rightarrow> 16 word list \<times> 'd) \<Rightarrow> 'd \<Rightarrow> FILE \<Rightarrow> 64 word \<Rightarrow> 64 word \<Rightarrow> fault + FILE" where
  "render_loop decode dec out totalFrames fadeFrames =
     (if totalFrames \<noteq> 0
      then
        let fc = (if totalFrames < 4096 then totalFrames else 4096);
            (buf, dec) = decode dec (unat (fc * 2))
        in then_do (fade_frames buf (ucast totalFrames) (ucast fadeFrames) (ucast fc)) (\<lambda>buf.
           then_do (pack_frames buf (ucast fc)) (\<lambda>pac.
           then_do (write_frames out pac (ucast fc)) (\<lambda>(r, out).
           render_loop decode dec out (totalFrames - fc) fadeFrames)))
      else Inr out)"
  by pat_completeness auto

termination
proof (relation "measure (\<lambda>(decode, dec, out, totalFrames, fadeFrames). unat totalFrames)")
  show "wf (measure (\<lambda>(decode, dec, out, totalFrames, fadeFrames). unat totalFrames))"
    by simp
next
  fix decode :: "'d \<Rightarrow> nat \<Rightarrow> 16 word list \<times> 'd" and dec dec' :: 'd and out out' :: FILE
    and totalFrames fadeFrames fc :: "64 word"
  assume nz: "totalFrames \<noteq> 0"
    and fc: "fc = (if totalFrames < 4096 then totalFrames else 4096)"
  have le: "fc \<le> totalFrames"
    using fc by (auto simp add: not_less)
  have "fc \<noteq> 0"
    using fc nz by auto
  then have "0 < unat fc"
    by (simp add: unat_gt_0)
  moreover have "0 < unat totalFrames"
    using nz by (simp add: unat_gt_0)
  ultimately have "unat (totalFrames - fc) < unat totalFrames"
    using unat_sub [OF le] le by (simp add: word_le_nat_alt)
  then show "((decode, dec', out', totalFrames - fc, fadeFrames),
              decode, dec, out, totalFrames, fadeFrames)
      \<in> measure (\<lambda>(decode, dec, out, totalFrames, fadeFrames). unat totalFrames)"
    by simp
qed

text \<open>
  Lines 263 to 283 of \<open>main\<close>: the header, the loop, the footer, and
  \<^verbatim>\<open>return 0\<close>. The values \<^verbatim>\<open>write_wav_header\<close> and \<^verbatim>\<open>write_wav_footer\<close>
  return are not used either. The result is the exit status and the output stream.
\<close>

definition main_output ::
  "('d \<Rightarrow> nat \<Rightarrow> 16 word list \<times> 'd) \<Rightarrow> 'd \<Rightarrow> FILE \<Rightarrow> 64 word \<Rightarrow> 64 word \<Rightarrow> str_buffer \<Rightarrow>
     fault + (int \<times> FILE)" where
  "main_output decode dec out totalFrames fadeFrames id3 =
     then_do (write_wav_header out totalFrames id3) (\<lambda>(r, out).
     then_do (render_loop decode dec out totalFrames fadeFrames) (\<lambda>out.
     then_do (write_wav_footer out id3) (\<lambda>(r, out).
     Inr (0, out))))"

declare dec_digits.simps [simp del] fade_loop.simps [simp del] render_loop.simps [simp del]
  pack_frames_loop.simps [simp del]

section \<open>Descriptions used in the proofs\<close>

text \<open>
  The bytes of the three kinds of frame, \<open>appended s bs s'\<close> (the buffer \<open>s'\<close> is
  \<open>s\<close> with \<open>bs\<close> stored at its used length, which advanced by as much), and
  \<open>frame_added s frm s'\<close>, what a frame writer that returned 0 has done.
\<close>

definition text_frame :: "byte list \<Rightarrow> byte list \<Rightarrow> nat \<Rightarrow> byte list" where
  "text_frame frame data n =
     take 4 frame @ pack_uint32_syncsafe (of_nat (1 + n + 1)) @ [0x00, 0x00, 0x03] @
     take n data @ [0x00]"

definition comment_frame :: "byte list \<Rightarrow> nat \<Rightarrow> byte list" where
  "comment_frame data n =
     bytes_of ''COMM'' @ pack_uint32_syncsafe (of_nat (1 + 3 + n + 1 + 1)) @ [0x00, 0x00, 0x03] @
     bytes_of ''eng'' @ [0x00] @ take n data @ [0x00]"

definition private_frame :: "byte list \<Rightarrow> nat \<Rightarrow> byte list \<Rightarrow> nat \<Rightarrow> byte list" where
  "private_frame description d data n =
     bytes_of ''TXXX'' @ pack_uint32_syncsafe (of_nat (1 + d + 1 + n + 1)) @
     [0x00, 0x00, 0x03] @ take d description @ [0x00] @ take n data @ [0x00]"

definition appended :: "str_buffer \<Rightarrow> byte list \<Rightarrow> str_buffer \<Rightarrow> bool" where
  "appended s bs s' \<longleftrightarrow>
     a s' = a s \<and> unat (len s') = unat (len s) + length bs \<and>
     poke (x s) (unat (len s)) bs = Inr (x s')"

definition frame_added :: "str_buffer \<Rightarrow> byte list \<Rightarrow> str_buffer \<Rightarrow> bool" where
  "frame_added s frm s' \<longleftrightarrow>
     unat (len s') = unat (len s) + length frm \<and>
     take 4 (drop 6 (x s')) = pack_uint32_syncsafe (len s' - 10) \<and>
     (if 10 \<le> unat (len s) then take (length frm) (drop (unat (len s)) (x s')) = frm else True) \<and>
     length (x s') = unat (a s') \<and> unat (len s') \<le> unat (a s')"

text \<open>
  \<open>tag_inv k s\<close>: the storage of the tag buffer \<open>s\<close> has the recorded capacity, the used
  length is at least 10 (the preamble is there) and at most \<open>10 + 279 * k\<close>, and the size
  field at offset 6 decodes to the used length minus 10. A frame of \<open>main\<close> has at most
  \<open>279 = 4 + 4 + 3 + 10 + 1 + 256 + 1\<close> bytes (the private frame: identifier, length,
  flags and encoding, the description \<^verbatim>\<open>spc_dumper\<close>, its terminator, at most 256 bytes of
  data, the terminator), so \<open>k\<close> counts the frames added so far.
\<close>

definition tag_inv :: "nat \<Rightarrow> str_buffer \<Rightarrow> bool" where
  "tag_inv k s \<longleftrightarrow>
     length (x s) = unat (a s) \<and> 10 \<le> unat (len s) \<and> unat (len s) \<le> 10 + 279 * k \<and>
     unat (syncsafe_decode (take 4 (drop 6 (x s)))) = unat (len s) - 10"

text \<open>The 44 bytes of the header, and a stream after it took some bytes.\<close>

definition wav_header_bytes :: "64 word \<Rightarrow> str_buffer \<Rightarrow> byte list" where
  "wav_header_bytes totalFrames id3 =
     bytes_of ''RIFF'' @
     pack_uint32le (ucast (totalFrames * 2 * 2) + 44 - 8 + (if len id3 > 10 then len id3 + 8 else 0)) @
     bytes_of ''WAVEfmt '' @ pack_uint32le 16 @ pack_uint16le 1 @ pack_uint16le 2 @
     pack_uint32le 32000 @ pack_uint32le 128000 @ pack_uint16le 4 @ pack_uint16le 16 @
     bytes_of ''data'' @ pack_uint32le (ucast (totalFrames * 2 * 2))"

definition emit :: "FILE \<Rightarrow> byte list \<Rightarrow> FILE" where
  "emit f bs = f\<lparr>written := written f @ bs, room := room f - length bs\<rparr>"

text \<open>
  The multiplier the specification gives to frame \<open>k\<close> of a chunk that starts inside the
  fade window, \<open>(window_end_offset - i) / window_length\<close> with the window end at the frames
  remaining: the exact quotient, a rational number.
\<close>

definition spec_multiplier :: "32 word \<Rightarrow> nat \<Rightarrow> 32 word \<Rightarrow> rat" where
  "spec_multiplier framesRem k framesFade = of_nat (unat framesRem - k) / of_nat (unat framesFade)"

section \<open>Concrete inputs\<close>

text \<open>
  The buffer \<open>main\<close> allocates (4096 bytes, used length 0), that buffer after
  \<^verbatim>\<open>id3_init\<close>, and after a text frame \<open>TIT2\<close> with the text \<open>Hello\<close>; the decoder
  that yields the sample pair \<open>(100, -100)\<close> for every frame; a metadata block whose
  game is \<open>AB\<close> and whose dumper is \<open>wxyz\<close>, and the buffer after its dumper frame.
\<close>

definition fresh_buffer :: str_buffer where
  "fresh_buffer = \<lparr>x = replicate 4096 0, a = 4096, len = 0\<rparr>"

definition init_buffer :: str_buffer where
  "init_buffer =
     \<lparr>x = [73, 68, 51, 4, 0, 0, 0, 0, 0, 0] @ replicate 4086 0, a = 4096, len = 10\<rparr>"

definition hello_buffer :: str_buffer where
  "hello_buffer =
     \<lparr>x = [73, 68, 51, 4, 0, 0, 0, 0, 0, 17,
           84, 73, 84, 50, 0, 0, 0, 7, 0, 0, 3, 72, 101, 108, 108, 111, 0] @ replicate 4069 0,
      a = 4096, len = 27\<rparr>"

definition const_decode :: "unit \<Rightarrow> nat \<Rightarrow> 16 word list \<times> unit" where
  "const_decode dec n = (concat (replicate (n div 2) [100, - 100]), dec)"

definition sample_id6 :: id666 where
  "sample_id6 =
     \<lparr>song = [0], game = c_str ''AB'', dumper = c_str ''wxyz'', comment = [0], artist = [0],
      publisher = [0], year = - 1\<rparr>"

definition dumper_buffer :: str_buffer where
  "dumper_buffer =
     \<lparr>x = [73, 68, 51, 4, 0, 0, 0, 0, 0, 25,
           84, 88, 88, 88, 0, 0, 0, 15, 0, 0, 3,
           115, 112, 99, 95, 100, 117, 109, 112, 101, 114, 0, 119, 120, 0] @ replicate 4061 0,
      a = 4096, len = 35\<rparr>"

text \<open>
  The tag \<open>main\<close> builds, with \<^verbatim>\<open>--id3\<close>, from the metadata block above: the album
  frame \<open>TALB\<close> of the game and the dumper frame.
\<close>

definition sample_tag :: str_buffer where
  "sample_tag =
     \<lparr>x = [73, 68, 51, 4, 0, 0, 0, 0, 0, 39,
           84, 65, 76, 66, 0, 0, 0, 4, 0, 0, 3, 65, 66, 0,
           84, 88, 88, 88, 0, 0, 0, 15, 0, 0, 3,
           115, 112, 99, 95, 100, 117, 109, 112, 101, 114, 0, 119, 120, 0] @ replicate 4047 0,
      a = 4096, len = 49\<rparr>"

section \<open>Packing: lemmas\<close>

lemma length_pack_uint32_syncsafe: "length (pack_uint32_syncsafe v) = 4"
  by (simp add: pack_uint32_syncsafe_def)

lemma length_pack_uint32le: "length (pack_uint32le v) = 4"
  by (simp add: pack_uint32le_def)

lemma syncsafe_mask_21: "(0x0FE00000 :: 32 word) = push_bit 21 (mask 7)"
  by (simp add: mask_eq_exp_minus_1)

lemma syncsafe_mask_14: "(0x001FC000 :: 32 word) = push_bit 14 (mask 7)"
  by (simp add: mask_eq_exp_minus_1)

lemma syncsafe_mask_7: "(0x00003F80 :: 32 word) = push_bit 7 (mask 7)"
  by (simp add: mask_eq_exp_minus_1)

lemma syncsafe_mask_0: "(0x7F :: 32 word) = mask 7"
  by (simp add: mask_eq_exp_minus_1)

lemma syncsafe_mask_28: "(0x0FFFFFFF :: 32 word) = mask 28"
  by (simp add: mask_eq_exp_minus_1)

lemma syncsafe_decode_pack:
  "syncsafe_decode (pack_uint32_syncsafe v) = v AND 0x0FFFFFFF"
  unfolding pack_uint32_syncsafe_def syncsafe_decode.simps
    syncsafe_mask_21 syncsafe_mask_14 syncsafe_mask_7 syncsafe_mask_0 syncsafe_mask_28
proof (rule bit_word_eqI, goal_cases)
  case (1 n)
  consider "n < 7" | "7 \<le> n" "n < 14" | "14 \<le> n" "n < 21" | "21 \<le> n" "n < 28" | "28 \<le> n"
    by linarith
  then show ?case
    by cases (auto simp add: bit_simps)
qed

lemma pack_uint32_syncsafe_low_bits:
  "pack_uint32_syncsafe (v AND 0x0FFFFFFF) = pack_uint32_syncsafe v"
  by (simp add: pack_uint32_syncsafe_def word_bw_assocs)

lemma uint32le_decode_pack: "uint32le_decode (pack_uint32le v) = v"
  unfolding pack_uint32le_def uint32le_decode.simps
proof (rule bit_word_eqI, goal_cases)
  case (1 n)
  consider "n < 8" | "8 \<le> n" "n < 16" | "16 \<le> n" "n < 24" | "24 \<le> n"
    by linarith
  then show ?case
    using 1 by cases (auto simp add: bit_simps)
qed

lemma syncsafe_decode_pack_unat:
  "unat (syncsafe_decode (pack_uint32_syncsafe v)) = unat v mod 2 ^ 28"
proof -
  have "syncsafe_decode (pack_uint32_syncsafe v) = take_bit 28 v"
    unfolding syncsafe_decode_pack syncsafe_mask_28 by (simp only: take_bit_eq_mask)
  then have "unat (syncsafe_decode (pack_uint32_syncsafe v)) = take_bit 28 (unat v)"
    by (simp only: unsigned_take_bit_eq)
  then show ?thesis
    by (simp only: take_bit_eq_mod)
qed

section \<open>Tag builder: lemmas\<close>

lemma then_do_Inr: "then_do r k = Inr v \<longleftrightarrow> (\<exists>u. r = Inr u \<and> k u = Inr v)"
  by (cases r) (simp_all add: then_do_def)

lemma poke_Inr:
  "poke mem off bs = Inr m \<longleftrightarrow>
     off + length bs \<le> length mem \<and> m = take off mem @ bs @ drop (off + length bs) mem"
  by (auto simp add: poke_def)

lemma length_poke: "poke mem off bs = Inr m \<Longrightarrow> length m = length mem"
  by (auto simp add: poke_Inr)

lemma poke_read: "poke mem off bs = Inr m \<Longrightarrow> take (length bs) (drop off m) = bs"
  by (auto simp add: poke_Inr)

lemma poke_read_before:
  "poke mem off bs = Inr m \<Longrightarrow> k + n \<le> off \<Longrightarrow> take n (drop k m) = take n (drop k mem)"
  by (auto simp add: poke_Inr drop_take min_def)

lemma poke_read_after:
  "poke mem off bs = Inr m \<Longrightarrow> off + length bs \<le> k \<Longrightarrow> drop k m = drop k mem"
  by (auto simp add: poke_Inr)

lemma unat_add_of_nat:
  "unat (w :: 32 word) + n < 2 ^ 32 \<Longrightarrow> unat (w + of_nat n) = unat w + n"
  by (simp add: unat_word_ariths unat_of_nat)

lemma buf_write_appended:
  assumes "length (x s) < 2 ^ 32" and "buf_write s src n = Inr s'"
  shows "appended s (take n src) s'"
  using assms
  by (auto simp add: buf_write_def then_do_Inr appended_def poke_Inr unat_add_of_nat
      split: if_splits)

lemma buf_putc_appended:
  assumes "length (x s) < 2 ^ 32" and "buf_putc s b = Inr s'"
  shows "appended s [b] s'"
  using assms unat_add_of_nat [of "len s" 1]
  by (auto simp add: buf_putc_def then_do_Inr appended_def poke_Inr)

lemma appended_length: "appended s bs s' \<Longrightarrow> length (x s') = length (x s)"
  by (auto simp add: appended_def dest: length_poke)

lemma appended_trans:
  assumes "appended s bs s1" and "appended s1 cs s2"
  shows "appended s (bs @ cs) s2"
  using assms by (auto simp add: appended_def poke_Inr ac_simps)

lemma appended_read: "appended s bs s' \<Longrightarrow> take (length bs) (drop (unat (len s)) (x s')) = bs"
  by (auto simp add: appended_def dest: poke_read)

lemma grow_loop_Some:
  assumes "grow_loop avail need s = Some y"
  shows "case y of Inl e \<Rightarrow> e = AllocFailed
         | Inr s' \<Rightarrow> len s' = len s \<and> unat (len s + 10) + need \<le> unat (a s') \<and>
             (length (x s) = unat (a s) \<longrightarrow> length (x s') = unat (a s'))"
  using assms
proof (induction avail need s y rule: grow_loop.raw_induct)
  case (1 grow avail need s y)
  show ?case
  proof (cases "unat (a s) < unat (len s + 10) + need")
    case False
    with 1(2) show ?thesis by auto
  next
    case grow: True
    show ?thesis
    proof (cases "avail (unat (a s + 512))")
      case False
      with grow 1(2) show ?thesis by (auto simp add: realloc_def)
    next
      case True
      let ?s1 = "s\<lparr>x := take (unat (a s + 512)) (x s) @
                          replicate (unat (a s + 512) - length (x s)) 0, a := a s + 512\<rparr>"
      from grow True 1(2) have step: "grow avail need ?s1 = Some y"
        by (simp add: realloc_def)
      from grow True 1(3) have "grow_loop avail need ?s1 = Some y"
        by (subst (asm) grow_loop.simps) (simp add: realloc_def)
      from 1(1) [OF step this] show ?thesis
        by (cases y) auto
    qed
  qed
qed (rule assms)

lemma grow_loop_Inr:
  assumes "grow_loop avail need s = Some (Inr s')"
  shows "len s' = len s" and "unat (len s + 10) + need \<le> unat (a s')"
    and "length (x s) = unat (a s) \<Longrightarrow> length (x s') = unat (a s')"
  using grow_loop_Some [OF assms] by simp_all

lemma id3_update_len_Inr:
  assumes "id3_update_len s = Inr s'"
  shows "len s' = len s" and "a s' = a s"
    and "take 4 (drop 6 (x s')) = pack_uint32_syncsafe (len s' - 10)"
    and "10 \<le> k \<Longrightarrow> drop k (x s') = drop k (x s)"
    and "take 6 (x s') = take 6 (x s)"
  using assms poke_read [of "x s" 6 "pack_uint32_syncsafe (len s - 10)" "x s'"]
    poke_read_after [of "x s" 6 "pack_uint32_syncsafe (len s - 10)" "x s'" k]
    poke_read_before [of "x s" 6 "pack_uint32_syncsafe (len s - 10)" "x s'" 0 6]
  by (auto simp add: id3_update_len_def then_do_Inr length_pack_uint32_syncsafe)

lemma buf_write_Inr_length: "buf_write s src n = Inr s' \<Longrightarrow> n \<le> length src"
  by (auto simp add: buf_write_def split: if_splits)

lemma appended_write:
  assumes "appended s0 bs s" and "length (x s0) < 2 ^ 32" and "buf_write s src n = Inr s'"
  shows "appended s0 (bs @ take n src) s'"
  using assms(1) buf_write_appended [OF _ assms(3)] assms(2)
  by (auto intro: appended_trans simp add: appended_length)

lemma appended_putc:
  assumes "appended s0 bs s" and "length (x s0) < 2 ^ 32" and "buf_putc s b = Inr s'"
  shows "appended s0 (bs @ [b]) s'"
  using assms(1) buf_putc_appended [OF _ assms(3)] assms(2)
  by (auto intro: appended_trans simp add: appended_length)

lemma length_lt_of_eq_unat: "length (xs :: byte list) = unat (w :: 32 word) \<Longrightarrow> length xs < 2 ^ 32"
  using unsigned_less [of w, where 'a = nat] by simp

lemma id3_add_text_Inr:
  assumes "length (x s) = unat (a s)"
    and "id3_add_text avail s frame data n = Some (Inr s')"
  obtains s1 s2 where "grow_loop avail (1 + n + 1) s = Some (Inr s1)"
    and "appended s1 (text_frame frame data n) s2"
    and "id3_update_len s2 = Inr s'" and "4 \<le> length frame" and "n \<le> length data"
proof -
  from assms(2) obtain s1 s2 s3 s4 s5 s6 s7 s8 where
    g: "grow_loop avail (1 + n + 1) s = Some (Inr s1)"
    and w2: "buf_write s1 frame 4 = Inr s2"
    and w3: "buf_write s2 (pack_uint32_syncsafe (of_nat (1 + n + 1))) 4 = Inr s3"
    and w4: "buf_putc s3 0 = Inr s4"
    and w5: "buf_putc s4 0 = Inr s5"
    and w6: "buf_putc s5 3 = Inr s6"
    and w7: "buf_write s6 data n = Inr s7"
    and w8: "buf_putc s7 0 = Inr s8"
    and u: "id3_update_len s8 = Inr s'"
    unfolding id3_add_text_def then_do_Inr map_option_eq_Some by auto
  have L: "length (x s1) < 2 ^ 32"
    using grow_loop_Inr(3) [OF g assms(1)] by (rule length_lt_of_eq_unat)
  note a2 = buf_write_appended [OF L w2]
  note a3 = appended_write [OF a2 L w3]
  note a4 = appended_putc [OF a3 L w4]
  note a5 = appended_putc [OF a4 L w5]
  note a6 = appended_putc [OF a5 L w6]
  note a7 = appended_write [OF a6 L w7]
  note a8 = appended_putc [OF a7 L w8]
  have "appended s1 (text_frame frame data n) s8"
    using a8 by (simp add: text_frame_def length_pack_uint32_syncsafe)
  then show ?thesis
    using g u buf_write_Inr_length [OF w2] buf_write_Inr_length [OF w7] that by blast
qed

lemma id3_add_comment_Inr:
  assumes "length (x s) = unat (a s)"
    and "id3_add_comment avail s data n = Some (Inr s')"
  obtains s1 s2 where "grow_loop avail (1 + 3 + n + 1 + 1) s = Some (Inr s1)"
    and "appended s1 (comment_frame data n) s2"
    and "id3_update_len s2 = Inr s'" and "n \<le> length data"
proof -
  from assms(2) obtain s1 c1 c2 c3 c4 s3 s4 s5 s6 e1 e2 e3 e4 s7 s8 where
    g: "grow_loop avail (1 + 3 + n + 1 + 1) s = Some (Inr s1)"
    and c1: "buf_putc s1 (of_char CHR ''C'') = Inr c1"
    and c2: "buf_putc c1 (of_char CHR ''O'') = Inr c2"
    and c3: "buf_putc c2 (of_char CHR ''M'') = Inr c3"
    and c4: "buf_putc c3 (of_char CHR ''M'') = Inr c4"
    and w3: "buf_write c4 (pack_uint32_syncsafe (of_nat (1 + 3 + n + 1 + 1))) 4 = Inr s3"
    and w4: "buf_putc s3 0 = Inr s4"
    and w5: "buf_putc s4 0 = Inr s5"
    and w6: "buf_putc s5 3 = Inr s6"
    and e1: "buf_putc s6 (of_char CHR ''e'') = Inr e1"
    and e2: "buf_putc e1 (of_char CHR ''n'') = Inr e2"
    and e3: "buf_putc e2 (of_char CHR ''g'') = Inr e3"
    and e4: "buf_putc e3 0 = Inr e4"
    and w7: "buf_write e4 data n = Inr s7"
    and w8: "buf_putc s7 0 = Inr s8"
    and u: "id3_update_len s8 = Inr s'"
    unfolding id3_add_comment_def then_do_Inr map_option_eq_Some by auto
  have L: "length (x s1) < 2 ^ 32"
    using grow_loop_Inr(3) [OF g assms(1)] by (rule length_lt_of_eq_unat)
  note b1 = buf_putc_appended [OF L c1]
  note b2 = appended_putc [OF b1 L c2]
  note b3 = appended_putc [OF b2 L c3]
  note b4 = appended_putc [OF b3 L c4]
  note a3 = appended_write [OF b4 L w3]
  note a4 = appended_putc [OF a3 L w4]
  note a5 = appended_putc [OF a4 L w5]
  note a6 = appended_putc [OF a5 L w6]
  note d1 = appended_putc [OF a6 L e1]
  note d2 = appended_putc [OF d1 L e2]
  note d3 = appended_putc [OF d2 L e3]
  note d4 = appended_putc [OF d3 L e4]
  note a7 = appended_write [OF d4 L w7]
  note a8 = appended_putc [OF a7 L w8]
  have "appended s1 (comment_frame data n) s8"
    using a8 by (simp add: comment_frame_def bytes_of_def length_pack_uint32_syncsafe)
  then show ?thesis
    using g u buf_write_Inr_length [OF w7] that by blast
qed

lemma id3_add_private_Inr:
  assumes "length (x s) = unat (a s)"
    and "id3_add_private avail s description data n = Some (Inr s')"
  obtains d s1 s2 where "strlen description = Inr d"
    and "grow_loop avail (1 + d + 1 + n + 1) s = Some (Inr s1)"
    and "appended s1 (private_frame description d data n) s2"
    and "id3_update_len s2 = Inr s'" and "d \<le> length description" and "n \<le> length data"
proof -
  from assms(2) obtain d where d: "strlen description = Inr d"
    by (cases "strlen description") (simp_all add: id3_add_private_def)
  with assms(2) have "map_option (\<lambda>r.
            then_do r (\<lambda>s.
            then_do (buf_putc s (of_char CHR ''T'')) (\<lambda>s.
            then_do (buf_putc s (of_char CHR ''X'')) (\<lambda>s.
            then_do (buf_putc s (of_char CHR ''X'')) (\<lambda>s.
            then_do (buf_putc s (of_char CHR ''X'')) (\<lambda>s.
            then_do (buf_write s (pack_uint32_syncsafe (of_nat (1 + d + 1 + n + 1))) 4) (\<lambda>s.
            then_do (buf_putc s 0x00) (\<lambda>s.
            then_do (buf_putc s 0x00) (\<lambda>s.
            then_do (buf_putc s 0x03) (\<lambda>s.
            then_do (buf_write s description d) (\<lambda>s.
            then_do (buf_putc s 0x00) (\<lambda>s.
            then_do (buf_write s data n) (\<lambda>s.
            then_do (buf_putc s 0x00) id3_update_len)))))))))))))
          (grow_loop avail (1 + d + 1 + n + 1) s) = Some (Inr s')"
    by (simp only: id3_add_private_def sum.case)
  then obtain s1 c1 c2 c3 c4 s3 s4 s5 s6 e1 e2 s7 s8 where
    g: "grow_loop avail (1 + d + 1 + n + 1) s = Some (Inr s1)"
    and c1: "buf_putc s1 (of_char CHR ''T'') = Inr c1"
    and c2: "buf_putc c1 (of_char CHR ''X'') = Inr c2"
    and c3: "buf_putc c2 (of_char CHR ''X'') = Inr c3"
    and c4: "buf_putc c3 (of_char CHR ''X'') = Inr c4"
    and w3: "buf_write c4 (pack_uint32_syncsafe (of_nat (1 + d + 1 + n + 1))) 4 = Inr s3"
    and w4: "buf_putc s3 0 = Inr s4"
    and w5: "buf_putc s4 0 = Inr s5"
    and w6: "buf_putc s5 3 = Inr s6"
    and e1: "buf_write s6 description d = Inr e1"
    and e2: "buf_putc e1 0 = Inr e2"
    and w7: "buf_write e2 data n = Inr s7"
    and w8: "buf_putc s7 0 = Inr s8"
    and u: "id3_update_len s8 = Inr s'"
    unfolding then_do_Inr map_option_eq_Some by auto
  have L: "length (x s1) < 2 ^ 32"
    using grow_loop_Inr(3) [OF g assms(1)] by (rule length_lt_of_eq_unat)
  note b1 = buf_putc_appended [OF L c1]
  note b2 = appended_putc [OF b1 L c2]
  note b3 = appended_putc [OF b2 L c3]
  note b4 = appended_putc [OF b3 L c4]
  note a3 = appended_write [OF b4 L w3]
  note a4 = appended_putc [OF a3 L w4]
  note a5 = appended_putc [OF a4 L w5]
  note a6 = appended_putc [OF a5 L w6]
  note d1 = appended_write [OF a6 L e1]
  note d2 = appended_putc [OF d1 L e2]
  note a7 = appended_write [OF d2 L w7]
  note a8 = appended_putc [OF a7 L w8]
  have "appended s1 (private_frame description d data n) s8"
    using a8 by (simp add: private_frame_def bytes_of_def length_pack_uint32_syncsafe)
  then show ?thesis
    using d g u buf_write_Inr_length [OF e1] buf_write_Inr_length [OF w7] that by blast
qed

lemma frame_addedI:
  assumes "length (x s) = unat (a s)"
    and g: "grow_loop avail need s = Some (Inr s1)"
    and ap: "appended s1 frm s2"
    and u: "id3_update_len s2 = Inr s'"
  shows "frame_added s frm s'"
proof -
  have len1: "len s1 = len s" and L1: "length (x s1) = unat (a s1)"
    using grow_loop_Inr [OF g] assms(1) by simp_all
  have len2: "unat (len s2) = unat (len s) + length frm" and a2: "a s2 = a s1"
    and L2: "length (x s2) = unat (a s1)" and le2: "unat (len s2) \<le> length (x s2)"
    using ap L1 len1 appended_length [OF ap] by (auto simp add: appended_def poke_Inr)
  have len': "len s' = len s2" and a': "a s' = a s2"
    using id3_update_len_Inr [OF u] by simp_all
  have L': "length (x s') = length (x s2)"
    using u by (auto simp add: id3_update_len_def then_do_Inr dest: length_poke)
  have rd: "take (length frm) (drop (unat (len s)) (x s')) = frm" if "10 \<le> unat (len s)"
    using id3_update_len_Inr(4) [OF u that] appended_read [OF ap] len1 by simp
  show ?thesis
    unfolding frame_added_def
    using len2 len' a' a2 L2 L' le2 rd id3_update_len_Inr(3) [OF u] by simp
qed

lemma grow_loop_total:
  assumes "\<forall>m. avail m" and "length (x s) = unat (a s)"
    and "unat (len s + 10) + need + 512 \<le> 2 ^ 32"
  shows "\<exists>s1. grow_loop avail need s = Some (Inr s1)"
  using assms(2,3)
proof (induction "unat (len s + 10) + need - unat (a s)" arbitrary: s rule: less_induct)
  case less
  show ?case
  proof (cases "unat (a s) < unat (len s + 10) + need")
    case False
    then show ?thesis
      by (subst grow_loop.simps) simp
  next
    case True
    let ?s1 = "s\<lparr>x := take (unat (a s + 512)) (x s) @
                        replicate (unat (a s + 512) - length (x s)) 0, a := a s + 512\<rparr>"
    have u: "unat (a s + 512) = unat (a s) + 512"
      using unat_add_of_nat [of "a s" 512] True less.prems(2) by simp
    have "\<exists>s1. grow_loop avail need ?s1 = Some (Inr s1)"
    proof (rule less.hyps)
      show "unat (len ?s1 + 10) + need - unat (a ?s1) < unat (len s + 10) + need - unat (a s)"
        using True u by simp
      show "length (x ?s1) = unat (a ?s1)"
        using less.prems(1) u by simp
      show "unat (len ?s1 + 10) + need + 512 \<le> 2 ^ 32"
        using less.prems(2) by simp
    qed
    then show ?thesis
      using True assms(1) by (subst grow_loop.simps) (simp add: realloc_def)
  qed
qed

lemma buf_write_succeeds:
  assumes "appended s0 bs s" and "length (x s0) < 2 ^ 32"
    and "unat (len s0) + length bs + n \<le> length (x s0)" and "n \<le> length src"
  shows "\<exists>s'. buf_write s src n = Inr s' \<and> appended s0 (bs @ take n src) s'"
proof -
  have "unat (len s) + n \<le> length (x s)"
    using assms(1,3) appended_length [OF assms(1)] by (simp add: appended_def)
  then obtain s' where w: "buf_write s src n = Inr s'"
    using assms(4) by (simp add: buf_write_def then_do_def poke_def)
  with appended_write [OF assms(1,2) w] show ?thesis by blast
qed

lemma buf_putc_succeeds:
  assumes "appended s0 bs s" and "length (x s0) < 2 ^ 32"
    and "unat (len s0) + length bs + 1 \<le> length (x s0)"
  shows "\<exists>s'. buf_putc s b = Inr s' \<and> appended s0 (bs @ [b]) s'"
proof -
  have "unat (len s) + 1 \<le> length (x s)"
    using assms(1,3) appended_length [OF assms(1)] by (simp add: appended_def)
  then obtain s' where w: "buf_putc s b = Inr s'"
    by (simp add: buf_putc_def then_do_def poke_def)
  with appended_putc [OF assms(1,2) w] show ?thesis by blast
qed

lemma appended_Nil: "unat (len s) \<le> length (x s) \<Longrightarrow> appended s [] s"
  by (simp add: appended_def poke_def)

lemma id3_update_len_succeeds: "10 \<le> length (x s) \<Longrightarrow> \<exists>s'. id3_update_len s = Inr s'"
  by (simp add: id3_update_len_def then_do_def poke_def length_pack_uint32_syncsafe)

lemma id3_add_text_total:
  assumes av: "\<forall>m. avail m" and L: "length (x s) = unat (a s)"
    and lo: "10 \<le> unat (len s)"
    and hi: "unat (len s) + 10 + (1 + n + 1) + 512 \<le> 2 ^ 32"
    and fr: "4 \<le> length frame" and da: "n \<le> length data"
  shows "\<exists>s'. id3_add_text avail s frame data n = Some (Inr s')"
proof -
  have l10: "unat (len s + 10) = unat (len s) + 10"
    using unat_add_of_nat [of "len s" 10] hi by simp
  obtain s1 where g: "grow_loop avail (1 + n + 1) s = Some (Inr s1)"
    using grow_loop_total [OF av L, of "1 + n + 1"] hi l10 by auto
  have len1: "len s1 = len s" and L1: "length (x s1) = unat (a s1)"
    and cap: "unat (len s) + 10 + (1 + n + 1) \<le> length (x s1)"
    using grow_loop_Inr [OF g] L l10 by simp_all
  have B: "length (x s1) < 2 ^ 32"
    using L1 by (rule length_lt_of_eq_unat)
  have a0: "appended s1 [] s1"
    using cap len1 by (intro appended_Nil) simp
  obtain s2 where w2: "buf_write s1 frame 4 = Inr s2" and a2: "appended s1 ([] @ take 4 frame) s2"
    using buf_write_succeeds [OF a0 B, of 4 frame] cap len1 fr by auto
  obtain s3 where w3: "buf_write s2 (pack_uint32_syncsafe (of_nat (1 + n + 1))) 4 = Inr s3"
    and a3: "appended s1 (([] @ take 4 frame) @ take 4 (pack_uint32_syncsafe (of_nat (1 + n + 1)))) s3"
    using buf_write_succeeds [OF a2 B, of 4 "pack_uint32_syncsafe (of_nat (1 + n + 1))"] cap len1 fr
    by (auto simp add: length_pack_uint32_syncsafe)
  obtain s4 where w4: "buf_putc s3 0 = Inr s4" and a4: "appended s1 ((([] @ take 4 frame) @ take 4 (pack_uint32_syncsafe (of_nat (1 + n + 1)))) @ [0]) s4"
    using buf_putc_succeeds [OF a3 B, of 0] cap len1 fr
    by (auto simp add: length_pack_uint32_syncsafe)
  obtain s5 where w5: "buf_putc s4 0 = Inr s5" and a5: "appended s1 (((([] @ take 4 frame) @ take 4 (pack_uint32_syncsafe (of_nat (1 + n + 1)))) @ [0]) @ [0]) s5"
    using buf_putc_succeeds [OF a4 B, of 0] cap len1 fr
    by (auto simp add: length_pack_uint32_syncsafe)
  obtain s6 where w6: "buf_putc s5 3 = Inr s6" and a6: "appended s1 ((((([] @ take 4 frame) @ take 4 (pack_uint32_syncsafe (of_nat (1 + n + 1)))) @ [0]) @ [0]) @ [3]) s6"
    using buf_putc_succeeds [OF a5 B, of 3] cap len1 fr
    by (auto simp add: length_pack_uint32_syncsafe)
  obtain s7 where w7: "buf_write s6 data n = Inr s7" and a7: "appended s1 (((((([] @ take 4 frame) @ take 4 (pack_uint32_syncsafe (of_nat (1 + n + 1)))) @ [0]) @ [0]) @ [3]) @ take n data) s7"
    using buf_write_succeeds [OF a6 B, of n data] cap len1 fr da
    by (auto simp add: length_pack_uint32_syncsafe)
  obtain s8 where w8: "buf_putc s7 0 = Inr s8" and a8: "appended s1 ((((((([] @ take 4 frame) @ take 4 (pack_uint32_syncsafe (of_nat (1 + n + 1)))) @ [0]) @ [0]) @ [3]) @ take n data) @ [0]) s8"
    using buf_putc_succeeds [OF a7 B, of 0] cap len1 fr da
    by (auto simp add: length_pack_uint32_syncsafe)
  have "10 \<le> length (x s8)"
    using appended_length [OF a8] cap by simp
  then obtain s' where u: "id3_update_len s8 = Inr s'"
    using id3_update_len_succeeds by blast
  show ?thesis
    using g w2 w3 w4 w5 w6 w7 w8 u by (simp add: id3_add_text_def then_do_def)
qed

lemma id3_init_Inr:
  assumes "10 \<le> length (x s0)"
  shows "\<exists>s. id3_init s0 = Inr s \<and> len s = 10 \<and> a s = a s0 \<and> length (x s) = length (x s0) \<and>
           take 4 (drop 6 (x s)) = pack_uint32_syncsafe 0"
proof -
  obtain m where m: "poke (x s0) 0 (bytes_of ''ID3'' @ [0x04, 0x00, 0x00]) = Inr m"
    using assms by (simp add: poke_def bytes_of_def)
  have lm: "length m = length (x s0)"
    by (rule length_poke [OF m])
  let ?t = "s0\<lparr>len := 10, x := m\<rparr>"
  obtain s where u: "id3_update_len ?t = Inr s"
    using id3_update_len_succeeds [of ?t] assms lm by auto
  have "length (x s) = length m"
    using u by (auto simp add: id3_update_len_def then_do_Inr dest: length_poke)
  with id3_update_len_Inr(1,2,3) [OF u] lm m u show ?thesis
    by (simp add: id3_init_def then_do_def)
qed

lemma syncsafe_decode_zero: "syncsafe_decode (pack_uint32_syncsafe 0) = 0"
  by (simp add: syncsafe_decode_pack)

lemma id3_add_text_updates:
  "id3_add_text avail s frame data n = Some (Inr s') \<Longrightarrow> \<exists>t. id3_update_len t = Inr s'"
  unfolding id3_add_text_def then_do_Inr map_option_eq_Some by auto

lemma id3_add_comment_updates:
  "id3_add_comment avail s data n = Some (Inr s') \<Longrightarrow> \<exists>t. id3_update_len t = Inr s'"
  unfolding id3_add_comment_def then_do_Inr map_option_eq_Some by auto

lemma id3_add_private_updates:
  "id3_add_private avail s description data n = Some (Inr s') \<Longrightarrow>
     \<exists>t. id3_update_len t = Inr s'"
  by (cases "strlen description")
    (auto simp add: id3_add_private_def then_do_Inr map_option_eq_Some)

lemma size_field_after_update:
  assumes "id3_update_len t = Inr s'"
  shows "syncsafe_decode (take 4 (drop 6 (x s'))) = (len s' - 10) AND 0x0FFFFFFF"
  using id3_update_len_Inr(3) [OF assms] by (simp add: syncsafe_decode_pack)

lemmas tag_eval = then_do_def poke_def buf_write_def buf_putc_def id3_update_len_def
  id3_init_def id3_add_text_def id3_add_comment_def id3_add_private_def c_str_def bytes_of_def
  pack_uint32_syncsafe_def fresh_buffer_def realloc_def strlen_def strnlen_def

lemma hello_run:
  "id3_init fresh_buffer = Inr \<lparr>x = [73, 68, 51, 4, 0, 0, 0, 0, 0, 0] @ replicate 4086 0, a = 4096, len = 10\<rparr>"
  "id3_add_text (\<lambda>m. True)
     \<lparr>x = [73, 68, 51, 4, 0, 0, 0, 0, 0, 0] @ replicate 4086 0, a = 4096, len = 10\<rparr>
     (c_str ''TIT2'') (c_str ''Hello'') 5 =
   Some (Inr \<lparr>x = [73, 68, 51, 4, 0, 0, 0, 0, 0, 17,
                    84, 73, 84, 50, 0, 0, 0, 7, 0, 0, 3, 72, 101, 108, 108, 111, 0] @
                   replicate 4069 0, a = 4096, len = 27\<rparr>)"
  by (simp_all add: tag_eval grow_loop.simps)

lemma sub_read: "take m ys = B \<Longrightarrow> k + j \<le> m \<Longrightarrow> take j (drop k ys) = take j (drop k B)"
  by (auto simp add: drop_take min_def)

lemma frame_added_read:
  assumes "frame_added s B s'" and "10 \<le> unat (len s)" and "k + j \<le> length B"
  shows "take j (drop (unat (len s) + k) (x s')) = take j (drop k B)"
proof -
  have "take (length B) (drop (unat (len s)) (x s')) = B"
    using assms(1,2) by (simp add: frame_added_def)
  from sub_read [OF this assms(3)] show ?thesis
    by (simp add: add.commute)
qed

lemma unat_syncsafe_of_nat:
  "unat (syncsafe_decode (pack_uint32_syncsafe (of_nat m))) = m mod 2 ^ 28"
proof -
  have "(2::nat) ^ 28 dvd 2 ^ 32"
    by (rule le_imp_power_dvd) simp
  then have "m mod 2 ^ 32 mod 2 ^ 28 = m mod 2 ^ 28"
    by (rule mod_mod_cancel)
  then show ?thesis
    by (simp add: syncsafe_decode_pack_unat unat_of_nat)
qed

lemma length_text_frame:
  "4 \<le> length frame \<Longrightarrow> n \<le> length data \<Longrightarrow> length (text_frame frame data n) = n + 12"
  by (simp add: text_frame_def length_pack_uint32_syncsafe)

lemma length_comment_frame:
  "n \<le> length data \<Longrightarrow> length (comment_frame data n) = n + 16"
  by (simp add: comment_frame_def length_pack_uint32_syncsafe bytes_of_def)

lemma length_private_frame:
  "d \<le> length description \<Longrightarrow> n \<le> length data \<Longrightarrow>
     length (private_frame description d data n) = d + n + 13"
  by (simp add: private_frame_def length_pack_uint32_syncsafe bytes_of_def)

lemma id3_add_text_frame:
  assumes "length (x s) = unat (a s)"
    and "id3_add_text avail s frame data n = Some (Inr s')"
  shows "frame_added s (text_frame frame data n) s'" and "4 \<le> length frame"
    and "n \<le> length data"
  using id3_add_text_Inr [OF assms] frame_addedI [OF assms(1)] by metis+

lemma id3_add_comment_frame:
  assumes "length (x s) = unat (a s)"
    and "id3_add_comment avail s data n = Some (Inr s')"
  shows "frame_added s (comment_frame data n) s'" and "n \<le> length data"
  using id3_add_comment_Inr [OF assms] frame_addedI [OF assms(1)] by metis+

lemma id3_add_private_frame:
  assumes "length (x s) = unat (a s)"
    and "id3_add_private avail s description data n = Some (Inr s')"
  shows "\<exists>d. strlen description = Inr d \<and> d \<le> length description \<and> n \<le> length data \<and>
           frame_added s (private_frame description d data n) s'"
  using id3_add_private_Inr [OF assms] frame_addedI [OF assms(1)] by metis

lemma text_frame_prefix:
  "4 \<le> length frame \<Longrightarrow>
     take 4 (drop 4 (text_frame frame data n)) = pack_uint32_syncsafe (of_nat (1 + n + 1))"
  by (simp add: text_frame_def length_pack_uint32_syncsafe)

lemma comment_frame_prefix:
  "take 4 (drop 4 (comment_frame data n)) = pack_uint32_syncsafe (of_nat (1 + 3 + n + 1 + 1))"
  by (simp add: comment_frame_def length_pack_uint32_syncsafe bytes_of_def)

lemma private_frame_prefix:
  "take 4 (drop 4 (private_frame description d data n)) =
     pack_uint32_syncsafe (of_nat (1 + d + 1 + n + 1))"
  by (simp add: private_frame_def length_pack_uint32_syncsafe bytes_of_def)

lemma text_prefix_decodes:
  assumes "length (x s) = unat (a s)" and "10 \<le> unat (len s)"
    and "id3_add_text avail s frame data n = Some (Inr s')"
  shows "unat (syncsafe_decode (take 4 (drop (unat (len s) + 4) (x s')))) = (n + 2) mod 2 ^ 28"
proof -
  note f = id3_add_text_frame [OF assms(1,3)]
  have "take 4 (drop (unat (len s) + 4) (x s')) = take 4 (drop 4 (text_frame frame data n))"
    using f(2,3) by (intro frame_added_read [OF f(1) assms(2)]) (simp add: length_text_frame)
  then show ?thesis
    using f(2) by (simp add: text_frame_prefix unat_syncsafe_of_nat del: of_nat_add of_nat_Suc)
qed

lemma comment_prefix_decodes:
  assumes "length (x s) = unat (a s)" and "10 \<le> unat (len s)"
    and "id3_add_comment avail s data n = Some (Inr s')"
  shows "unat (syncsafe_decode (take 4 (drop (unat (len s) + 4) (x s')))) = (n + 6) mod 2 ^ 28"
proof -
  note f = id3_add_comment_frame [OF assms(1,3)]
  have "take 4 (drop (unat (len s) + 4) (x s')) = take 4 (drop 4 (comment_frame data n))"
    using f(2) by (intro frame_added_read [OF f(1) assms(2)]) (simp add: length_comment_frame)
  then show ?thesis
    by (simp add: comment_frame_prefix unat_syncsafe_of_nat add.commute
        del: of_nat_add of_nat_Suc)
qed

lemma private_prefix_decodes:
  assumes "length (x s) = unat (a s)" and "10 \<le> unat (len s)"
    and "id3_add_private avail s description data n = Some (Inr s')"
    and "strlen description = Inr d"
  shows "unat (syncsafe_decode (take 4 (drop (unat (len s) + 4) (x s')))) =
           (1 + d + 1 + n + 1) mod 2 ^ 28"
proof -
  from id3_add_private_frame [OF assms(1,3)] assms(4)
  have f: "frame_added s (private_frame description d data n) s'"
    and b: "d \<le> length description" "n \<le> length data"
    by auto
  have "take 4 (drop (unat (len s) + 4) (x s')) =
          take 4 (drop 4 (private_frame description d data n))"
    using b by (intro frame_added_read [OF f assms(2)]) (simp add: length_private_frame)
  then show ?thesis
    by (simp add: private_frame_prefix unat_syncsafe_of_nat del: of_nat_add of_nat_Suc)
qed

lemma hello_frame:
  assumes "length (x s0) = unat (a s0)" and "id3_init s0 = Inr s1"
    and "id3_add_text avail s1 frame data 5 = Some (Inr s2)"
  shows "unat (len s2) = 27" and "syncsafe_decode (take 4 (drop 6 (x s2))) = 17"
proof -
  have "10 \<le> length (x s0)"
    using assms(2) by (auto simp add: id3_init_def then_do_Inr id3_update_len_def poke_Inr
        length_pack_uint32_syncsafe bytes_of_def)
  from id3_init_Inr [OF this] assms(1,2)
  have s1: "len s1 = 10" "length (x s1) = unat (a s1)"
    by auto
  note f = id3_add_text_frame [OF s1(2) assms(3)]
  show l: "unat (len s2) = 27"
    using f s1(1) by (simp add: frame_added_def length_text_frame)
  then have "len s2 = 27"
    by (simp add: word_unat_eq_iff)
  moreover obtain t where "id3_update_len t = Inr s2"
    using id3_add_text_updates [OF assms(3)] by blast
  ultimately show "syncsafe_decode (take 4 (drop 6 (x s2))) = 17"
    using size_field_after_update by simp
qed

lemma abc_runs:
  "id3_add_comment (\<lambda>m. True)
     \<lparr>x = [73, 68, 51, 4, 0, 0, 0, 0, 0, 0] @ replicate 4086 0, a = 4096, len = 10\<rparr>
     (c_str ''abc'') 3 =
   Some (Inr \<lparr>x = [73, 68, 51, 4, 0, 0, 0, 0, 0, 19,
                    67, 79, 77, 77, 0, 0, 0, 9, 0, 0, 3, 101, 110, 103, 0, 97, 98, 99, 0] @
                   replicate 4067 0, a = 4096, len = 29\<rparr>)"
  "id3_add_private (\<lambda>m. True)
     \<lparr>x = [73, 68, 51, 4, 0, 0, 0, 0, 0, 0] @ replicate 4086 0, a = 4096, len = 10\<rparr>
     (c_str ''spc_dumper'') (c_str ''abc'') 3 =
   Some (Inr \<lparr>x = [73, 68, 51, 4, 0, 0, 0, 0, 0, 26,
                    84, 88, 88, 88, 0, 0, 0, 16, 0, 0, 3,
                    115, 112, 99, 95, 100, 117, 109, 112, 101, 114, 0, 97, 98, 99, 0] @
                   replicate 4060 0, a = 4096, len = 36\<rparr>)"
  "strlen (c_str ''spc_dumper'') = Inr 10"
  by (simp_all add: tag_eval grow_loop.simps)

section \<open>WAV container writer: lemmas\<close>

lemma fwrite_all_ok:
  assumes "sz * nmemb \<le> length ptr" and "sz * nmemb \<le> room f" and "0 < sz"
  shows "fwrite_all ptr sz nmemb f k =
           k (f\<lparr>written := written f @ take (sz * nmemb) ptr, room := room f - sz * nmemb\<rparr>)"
  using assms by (simp add: fwrite_all_def fwrite_def then_do_def min_def Let_def)

lemma length_pack_uint16le: "length (pack_uint16le v) = 2"
  by (simp add: pack_uint16le_def)

lemma room_emit: "room (emit f bs) = room f - length bs"
  by (simp add: emit_def)

lemma written_emit: "written (emit f bs) = written f @ bs"
  by (simp add: emit_def)

lemma emit_emit: "emit (emit f bs) cs = emit f (bs @ cs)"
  by (simp add: emit_def)

lemma fwrite_all_emit:
  assumes "n \<le> length ptr" and "n \<le> room f"
  shows "fwrite_all ptr 1 n f k = k (emit f (take n ptr))"
  using assms by (simp add: fwrite_all_ok emit_def)

lemma take_c_str: "length cs = n \<Longrightarrow> take n (c_str cs) = bytes_of cs"
  by (simp add: c_str_def bytes_of_def)

lemma length_c_str: "length (c_str cs) = Suc (length cs)"
  by (simp add: c_str_def bytes_of_def)

lemma length_bytes_of: "length (bytes_of cs) = length cs"
  by (simp add: bytes_of_def)

lemmas hdr_len = length_c_str length_pack_uint32le length_pack_uint16le length_bytes_of
  take_c_str

lemma write_wav_header_ok:
  assumes "44 \<le> room f"
  shows "write_wav_header f totalFrames id3 = Inr (1, emit f (wav_header_bytes totalFrames id3))"
  unfolding write_wav_header_def Let_def
  apply (subst fwrite_all_emit)
    apply (simp add: hdr_len)
  using assms apply (simp add: hdr_len room_emit)
  apply (subst fwrite_all_emit)
    apply (simp add: hdr_len)
  using assms apply (simp add: hdr_len room_emit)
  apply (subst fwrite_all_emit)
    apply (simp add: hdr_len)
  using assms apply (simp add: hdr_len room_emit)
  apply (subst fwrite_all_emit)
    apply (simp add: hdr_len)
  using assms apply (simp add: hdr_len room_emit)
  apply (subst fwrite_all_emit)
    apply (simp add: hdr_len)
  using assms apply (simp add: hdr_len room_emit)
  apply (subst fwrite_all_emit)
    apply (simp add: hdr_len)
  using assms apply (simp add: hdr_len room_emit)
  apply (subst fwrite_all_emit)
    apply (simp add: hdr_len)
  using assms apply (simp add: hdr_len room_emit)
  apply (subst fwrite_all_emit)
    apply (simp add: hdr_len)
  using assms apply (simp add: hdr_len room_emit)
  apply (subst fwrite_all_emit)
    apply (simp add: hdr_len)
  using assms apply (simp add: hdr_len room_emit)
  apply (subst fwrite_all_emit)
    apply (simp add: hdr_len)
  using assms apply (simp add: hdr_len room_emit)
  apply (subst fwrite_all_emit)
    apply (simp add: hdr_len)
  using assms apply (simp add: hdr_len room_emit)
  apply (subst fwrite_all_emit)
    apply (simp add: hdr_len)
  using assms apply (simp add: hdr_len room_emit)
  apply (subst fwrite_all_emit)
    apply (simp add: hdr_len)
  using assms apply (simp add: hdr_len room_emit)
  apply (simp add: emit_emit wav_header_bytes_def hdr_len bytes_of_def)
  done

lemma unat_dataSize:
  "unat (ucast (totalFrames * 2 * 2 :: 64 word) :: 32 word) = (unat totalFrames * 2 * 2) mod 2 ^ 32"
proof -
  have "(2::nat) ^ 32 dvd 2 ^ 64"
    by (rule le_imp_power_dvd) simp
  then have "(unat totalFrames * 2 * 2) mod 2 ^ 64 mod 2 ^ 32 = (unat totalFrames * 2 * 2) mod 2 ^ 32"
    by (rule mod_mod_cancel)
  moreover have "totalFrames * 2 * 2 = of_nat (unat totalFrames * 2 * 2)"
    by simp
  then have "unat (totalFrames * 2 * 2) = (unat totalFrames * 2 * 2) mod 2 ^ 64"
    by (simp only: unat_of_nat) simp
  moreover have "unat (ucast (totalFrames * 2 * 2) :: 32 word) = unat (totalFrames * 2 * 2) mod 2 ^ 32"
    by (simp only: unsigned_ucast_eq take_bit_eq_mod) simp
  ultimately show ?thesis
    by (simp only:)
qed

lemma unat_riffSize:
  fixes dataSize l :: "32 word"
  shows "unat (dataSize + 44 - 8 + (if l > 10 then l + 8 else 0)) =
           (unat dataSize + 44 - 8 + (if 10 < unat l then unat l + 8 else 0)) mod 2 ^ 32"
proof -
  have c: "l > 10 \<longleftrightarrow> 10 < unat l"
    by (simp add: word_less_nat_alt)
  have "dataSize + 44 - 8 + (if l > 10 then l + 8 else 0) =
          of_nat (unat dataSize + 44 - 8 + (if 10 < unat l then unat l + 8 else 0))"
    using c by simp
  then show ?thesis
    by (simp only: unat_of_nat) simp
qed

lemma wav_header_fields:
  "length (wav_header_bytes totalFrames id3) = 44"
  "take 4 (drop 40 (wav_header_bytes totalFrames id3)) = pack_uint32le (ucast (totalFrames * 2 * 2))"
  "take 4 (drop 4 (wav_header_bytes totalFrames id3)) =
     pack_uint32le (ucast (totalFrames * 2 * 2) + 44 - 8 + (if len id3 > 10 then len id3 + 8 else 0))"
  by (simp_all add: wav_header_bytes_def hdr_len)

lemma write_wav_footer_ok:
  assumes "len id3 \<noteq> 10" and "unat (len id3) \<le> length (x id3)"
    and "8 + unat (len id3) \<le> room f"
  shows "write_wav_footer f id3 =
           Inr (1, emit f (bytes_of ''ID3 '' @ pack_uint32le (len id3) @
                           take (unat (len id3)) (x id3)))"
  unfolding write_wav_footer_def Let_def if_not_P [OF assms(1)]
  apply (subst fwrite_all_emit)
    apply (simp add: hdr_len)
  using assms apply (simp add: hdr_len room_emit)
  apply (subst fwrite_all_emit)
    apply (simp add: hdr_len)
  using assms apply (simp add: hdr_len room_emit)
  apply (subst fwrite_all_emit)
    apply (simp add: hdr_len assms)
  using assms apply (simp add: hdr_len room_emit)
  apply (simp add: emit_emit hdr_len)
  done

section \<open>Fade envelope and render loop: lemmas\<close>

lemma fwrite_all_full:
  assumes "room f = 0" and "0 < nmemb" and "sz * nmemb \<le> length ptr" and "0 < sz"
  shows "fwrite_all ptr sz nmemb f k = Inr (0, f)"
  using assms by (simp add: fwrite_all_def fwrite_def then_do_def Let_def)

lemma write_wav_header_full:
  assumes "room f = 0"
  shows "write_wav_header f totalFrames id3 = Inr (0, f)"
  unfolding write_wav_header_def Let_def
  by (subst fwrite_all_full) (simp_all add: assms length_c_str)

lemma write_wav_footer_full:
  assumes "room f = 0" and "len id3 \<noteq> 10"
  shows "write_wav_footer f id3 = Inr (0, f)"
  unfolding write_wav_footer_def Let_def if_not_P [OF assms(2)]
  by (subst fwrite_all_full) (simp_all add: assms length_c_str)

lemma render_loop_full:
  "render_loop const_decode () \<lparr>written = [], room = 0\<rparr> 10 5 = Inr \<lparr>written = [], room = 0\<rparr>"
  by code_simp

text \<open>
  The rounding agrees with the binary64 values of \<open>0.1\<close> (\<^verbatim>\<open>0x3FB999999999999A\<close>)
  and of \<open>1 / 3\<close> (\<^verbatim>\<open>0x3FD5555555555555\<close>), and a tie goes to the even
  significand.
\<close>

lemma round_to_double_examples:
  "round_to_double 1 10 = Dbl 0x1999999999999A (- 56)"
  "round_to_double 1 3 = Dbl 0x15555555555555 (- 54)"
  "round_to_double (2 ^ 53 + 1) 1 = Dbl (2 ^ 52) 1"
  "round_to_double (2 ^ 53 + 3) 1 = Dbl (2 ^ 52 + 2) 1"
  "round_to_double (- 3) 4 = Dbl (- (3 * 2 ^ 51)) (- 53)"
  by code_simp+

lemma half_mult: "fade_mult 50 0 100 = Inr (Dbl 4503599627370496 (- 53))"
  by code_simp

lemma half_val: "dbl_val (Dbl 4503599627370496 (- 53)) = 1 / 2"
  by (simp add: dbl_val_def power_int_def divide_simps)

lemma half_run: "fade_frames [100, - 100] 50 100 1 = Inr [50, - 50]"
  by code_simp

lemma render_run:
  "render_loop const_decode () \<lparr>written = [], room = 40\<rparr> 10 5 =
     Inr \<lparr>written = concat (map pack_int16le
              [100, - 100, 100, - 100, 100, - 100, 100, - 100, 100, - 100, 100, - 100,
               80, - 80, 60, - 60, 40, - 40, 20, - 20]), room = 0\<rparr>"
  by code_simp

lemma fade_run:
  "fade_frames (fst (const_decode () 20)) 10 5 10 =
     Inr [100, - 100, 100, - 100, 100, - 100, 100, - 100, 100, - 100, 100, - 100,
          80, - 80, 60, - 60, 40, - 40, 20, - 20]"
  by code_simp

section \<open>The tag section of main: lemmas\<close>

lemma strnlen_le: "strnlen str m = Inr n \<Longrightarrow> n \<le> m"
proof -
  assume "strnlen str m = Inr n"
  then have "n = length (takeWhile (\<lambda>c. c \<noteq> 0) (take m str))"
    by (simp add: strnlen_def split: if_splits)
  moreover have "length (takeWhile (\<lambda>c. c \<noteq> 0) (take m str)) \<le> length (take m str)"
    by (rule length_takeWhile_le)
  ultimately show ?thesis
    by simp
qed

lemma strlen_spc_dumper: "strlen (c_str ''spc_dumper'') = Inr 10"
  by (simp add: strlen_def c_str_def bytes_of_def)

lemma private_frame_parts:
  assumes "length description \<ge> d" and "length data \<ge> n"
  shows "take 4 (private_frame description d data n) = bytes_of ''TXXX''"
    and "take n (drop (d + 12) (private_frame description d data n)) = take n data"
proof -
  define P where "P = bytes_of ''TXXX'' @ pack_uint32_syncsafe (of_nat (1 + d + 1 + n + 1)) @
     [0x00, 0x00, 0x03] @ take d description @ [0x00 :: byte]"
  have B: "private_frame description d data n = P @ take n data @ [0]"
    by (simp add: private_frame_def P_def)
  have lP: "length P = d + 12"
    using assms(1) by (simp add: P_def length_pack_uint32_syncsafe bytes_of_def)
  show "take n (drop (d + 12) (private_frame description d data n)) = take n data"
    unfolding B using lP assms(2) by simp
  show "take 4 (private_frame description d data n) = bytes_of ''TXXX''"
    by (simp add: private_frame_def bytes_of_def)
qed

lemma sample_run:
  "strnlen (dumper sample_id6) 256 = Inr 4"
  "strnlen (game sample_id6) 256 = Inr 2"
  "tag_dumper (\<lambda>m. True) init_buffer sample_id6 = Some (Inr dumper_buffer)"
  by (simp_all add: tag_dumper_def sample_id6_def init_buffer_def dumper_buffer_def tag_eval
      grow_loop.simps)

lemma dumper_frame:
  assumes w: "length (x s) = unat (a s)" "10 \<le> unat (len s)"
    and n: "strnlen (dumper id6) 256 = Inr n" "n \<noteq> 0"
    and g: "strnlen (game id6) 256 = Inr g"
    and r: "tag_dumper avail s id6 = Some (Inr s')"
  shows "take 4 (drop (unat (len s)) (x s')) = bytes_of ''TXXX''"
    and "unat (syncsafe_decode (take 4 (drop (unat (len s) + 4) (x s')))) = 1 + 10 + 1 + g + 1"
    and "take g (drop (unat (len s) + 22) (x s')) = take g (dumper id6)"
    and "unat (len s') = unat (len s) + 10 + (1 + 10 + 1 + g + 1)"
proof -
  from r n g have p: "id3_add_private avail s (c_str ''spc_dumper'') (dumper id6) g = Some (Inr s')"
    by (simp add: tag_dumper_def)
  from id3_add_private_frame [OF w(1) p] strlen_spc_dumper
  have f: "frame_added s (private_frame (c_str ''spc_dumper'') 10 (dumper id6) g) s'"
    and b: "10 \<le> length (c_str ''spc_dumper'')" "g \<le> length (dumper id6)"
    by auto
  let ?B = "private_frame (c_str ''spc_dumper'') 10 (dumper id6) g"
  have lB: "length ?B = g + 23"
    using length_private_frame [OF b] by simp
  have "take 4 (drop (unat (len s) + 0) (x s')) = take 4 (drop 0 ?B)"
    by (rule frame_added_read [OF f w(2)]) (simp add: lB)
  then show "take 4 (drop (unat (len s)) (x s')) = bytes_of ''TXXX''"
    using private_frame_parts(1) [OF b] by simp
  have "g \<le> 256"
    using g by (rule strnlen_le)
  then have "(1 + 10 + 1 + g + 1) mod 2 ^ 28 = 1 + 10 + 1 + g + 1"
    by simp
  with private_prefix_decodes [OF w p strlen_spc_dumper]
  show "unat (syncsafe_decode (take 4 (drop (unat (len s) + 4) (x s')))) = 1 + 10 + 1 + g + 1"
    by simp
  have "take g (drop (unat (len s) + 22) (x s')) = take g (drop 22 ?B)"
    by (rule frame_added_read [OF f w(2)]) (simp add: lB)
  then show "take g (drop (unat (len s) + 22) (x s')) = take g (dumper id6)"
    using private_frame_parts(2) [OF b] by simp
  show "unat (len s') = unat (len s) + 10 + (1 + 10 + 1 + g + 1)"
    using f lB by (simp add: frame_added_def)
qed

section \<open>The size field along the tag section of main: lemmas\<close>

lemma and_then_Inr:
  "and_then m k = Some (Inr v) \<longleftrightarrow> (\<exists>u. m = Some (Inr u) \<and> k u = Some (Inr v))"
  by (auto simp add: and_then_def split: option.splits sum.splits)

lemma tag_inv_mono: "tag_inv k s \<Longrightarrow> tag_inv (Suc k) s"
  by (simp add: tag_inv_def)

lemma frame_added_tag_inv:
  assumes inv: "tag_inv k s" and k: "279 * Suc k < 2 ^ 28"
    and f: "frame_added s frm s'" and l: "length frm \<le> 279"
  shows "tag_inv (Suc k) s'"
    and "syncsafe_decode (take 4 (drop 6 (x s'))) = len s' - 10"
    and "10 \<le> unat (len s')"
proof -
  have len': "unat (len s') = unat (len s) + length frm"
    and fld: "take 4 (drop 6 (x s')) = pack_uint32_syncsafe (len s' - 10)"
    and cap: "length (x s') = unat (a s')"
    using f by (simp_all add: frame_added_def)
  have lo: "10 \<le> unat (len s')" and hi: "unat (len s') \<le> 10 + 279 * Suc k"
    using inv len' l by (simp_all add: tag_inv_def)
  show "10 \<le> unat (len s')"
    by (rule lo)
  have sub: "unat (len s' - 10) = unat (len s') - 10"
    using lo by (simp add: unat_sub word_le_nat_alt)
  have "unat (len s' - 10) < 2 ^ 28"
    using sub hi k by simp
  then have "len s' - 10 < 2 ^ 28"
    by (simp add: word_less_nat_alt)
  then have "(len s' - 10) AND mask 28 = len s' - 10"
    by (rule less_mask_eq)
  then show eq: "syncsafe_decode (take 4 (drop 6 (x s'))) = len s' - 10"
    by (simp add: fld syncsafe_decode_pack syncsafe_mask_28)
  show "tag_inv (Suc k) s'"
    unfolding tag_inv_def using cap lo hi eq sub by simp
qed

lemma id3_init_tag_inv:
  assumes "length (x s0) = unat (a s0)" and "id3_init s0 = Inr s"
  shows "tag_inv 0 s"
proof -
  have "10 \<le> length (x s0)"
    using assms(2) by (auto simp add: id3_init_def then_do_Inr id3_update_len_def poke_Inr
        length_pack_uint32_syncsafe bytes_of_def)
  from id3_init_Inr [OF this] assms show ?thesis
    by (auto simp add: tag_inv_def syncsafe_decode_zero)
qed

lemma add_text_tag_inv:
  assumes "tag_inv k s" and "279 * Suc k < 2 ^ 28" and "n \<le> 256"
    and "id3_add_text avail s frame data n = Some (Inr s')"
  shows "tag_inv (Suc k) s'" and "syncsafe_decode (take 4 (drop 6 (x s'))) = len s' - 10"
    and "10 \<le> unat (len s')"
proof -
  have L: "length (x s) = unat (a s)"
    using assms(1) by (simp add: tag_inv_def)
  note f = id3_add_text_frame [OF L assms(4)]
  have "length (text_frame frame data n) \<le> 279"
    using length_text_frame [OF f(2,3)] assms(3) by simp
  from frame_added_tag_inv [OF assms(1,2) f(1) this]
  show "tag_inv (Suc k) s'" and "syncsafe_decode (take 4 (drop 6 (x s'))) = len s' - 10"
    and "10 \<le> unat (len s')" .
qed

lemma add_comment_tag_inv:
  assumes "tag_inv k s" and "279 * Suc k < 2 ^ 28" and "n \<le> 256"
    and "id3_add_comment avail s data n = Some (Inr s')"
  shows "tag_inv (Suc k) s'" and "syncsafe_decode (take 4 (drop 6 (x s'))) = len s' - 10"
    and "10 \<le> unat (len s')"
proof -
  have L: "length (x s) = unat (a s)"
    using assms(1) by (simp add: tag_inv_def)
  note f = id3_add_comment_frame [OF L assms(4)]
  have "length (comment_frame data n) \<le> 279"
    using length_comment_frame [OF f(2)] assms(3) by simp
  from frame_added_tag_inv [OF assms(1,2) f(1) this]
  show "tag_inv (Suc k) s'" and "syncsafe_decode (take 4 (drop 6 (x s'))) = len s' - 10"
    and "10 \<le> unat (len s')" .
qed

lemma add_private_tag_inv:
  assumes "tag_inv k s" and "279 * Suc k < 2 ^ 28" and "n \<le> 256"
    and "id3_add_private avail s description data n = Some (Inr s')"
    and "strlen description = Inr d" and "d \<le> 10"
  shows "tag_inv (Suc k) s'" and "syncsafe_decode (take 4 (drop 6 (x s'))) = len s' - 10"
    and "10 \<le> unat (len s')"
proof -
  have L: "length (x s) = unat (a s)"
    using assms(1) by (simp add: tag_inv_def)
  from id3_add_private_frame [OF L assms(4)] assms(5)
  have f: "frame_added s (private_frame description d data n) s'"
    and b: "d \<le> length description" "n \<le> length data"
    by auto
  have "length (private_frame description d data n) \<le> 279"
    using length_private_frame [OF b] assms(3,6) by simp
  from frame_added_tag_inv [OF assms(1,2) f this]
  show "tag_inv (Suc k) s'" and "syncsafe_decode (take 4 (drop 6 (x s'))) = len s' - 10"
    and "10 \<le> unat (len s')" .
qed

lemma strlen_snprintf_d: "strlen (snprintf_d 5 i) = Inr n \<Longrightarrow> n \<le> 4"
proof -
  assume a: "strlen (snprintf_d 5 i) = Inr n"
  define body where
    "body = take 4 (if i < 0 then of_char CHR ''-'' # dec_digits (nat (- i)) else dec_digits (nat i))"
  have s: "snprintf_d 5 i = body @ [0]"
    by (simp add: snprintf_d_def body_def)
  have "n = length (takeWhile (\<lambda>c. c \<noteq> 0) (body @ [0]))"
    using a by (simp add: strlen_def s split: if_splits)
  also have "\<dots> \<le> length body"
    by (induction body) simp_all
  also have "\<dots> \<le> 4"
    by (simp add: body_def)
  finally show ?thesis .
qed

lemma tag_text_field_tag_inv:
  assumes "tag_inv k s" and "279 * Suc k < 2 ^ 28"
    and "tag_text_field avail s frame field = Some (Inr s')"
  shows "tag_inv (Suc k) s'"
proof (cases "strnlen field 256")
  case (Inl e)
  with assms(3) show ?thesis
    by (simp add: tag_text_field_def)
next
  case (Inr n)
  show ?thesis
  proof (cases "n = 0")
    case True
    with Inr assms(1,3) show ?thesis
      by (simp add: tag_text_field_def tag_inv_mono)
  next
    case False
    with Inr assms(3) have "id3_add_text avail s (c_str frame) field n = Some (Inr s')"
      by (simp add: tag_text_field_def)
    from add_text_tag_inv(1) [OF assms(1,2) strnlen_le [OF Inr] this] show ?thesis .
  qed
qed

lemma tag_comment_tag_inv:
  assumes "tag_inv k s" and "279 * Suc k < 2 ^ 28"
    and "tag_comment avail s id6 = Some (Inr s')"
  shows "tag_inv (Suc k) s'"
proof (cases "strnlen (comment id6) 256")
  case (Inl e)
  with assms(3) show ?thesis
    by (simp add: tag_comment_def)
next
  case (Inr n)
  show ?thesis
  proof (cases "n = 0")
    case True
    with Inr assms(1,3) show ?thesis
      by (simp add: tag_comment_def tag_inv_mono)
  next
    case False
    with Inr assms(3) have "id3_add_comment avail s (comment id6) n = Some (Inr s')"
      by (simp add: tag_comment_def)
    from add_comment_tag_inv(1) [OF assms(1,2) strnlen_le [OF Inr] this] show ?thesis .
  qed
qed

lemma tag_dumper_tag_inv:
  assumes "tag_inv k s" and "279 * Suc k < 2 ^ 28"
    and "tag_dumper avail s id6 = Some (Inr s')"
  shows "tag_inv (Suc k) s'"
proof (cases "strnlen (dumper id6) 256")
  case (Inl e)
  with assms(3) show ?thesis
    by (simp add: tag_dumper_def)
next
  case (Inr n)
  show ?thesis
  proof (cases "n = 0")
    case True
    with Inr assms(1,3) show ?thesis
      by (simp add: tag_dumper_def tag_inv_mono)
  next
    case False
    show ?thesis
    proof (cases "strnlen (game id6) 256")
      case (Inl e)
      with Inr False assms(3) show ?thesis
        by (simp add: tag_dumper_def)
    next
      case g: (Inr g)
      with Inr False assms(3)
      have "id3_add_private avail s (c_str ''spc_dumper'') (dumper id6) g = Some (Inr s')"
        by (simp add: tag_dumper_def)
      from add_private_tag_inv(1) [OF assms(1,2) strnlen_le [OF g] this strlen_spc_dumper]
      show ?thesis by simp
    qed
  qed
qed

lemma tag_year_tag_inv:
  assumes "tag_inv k s" and "279 * Suc k < 2 ^ 28"
    and "tag_year avail s id6 = Some (Inr s')"
  shows "tag_inv (Suc k) s'"
proof (cases "year id6 = - 1")
  case True
  with assms(1,3) show ?thesis
    by (simp add: tag_year_def tag_inv_mono)
next
  case False
  show ?thesis
  proof (cases "strlen (snprintf_d 5 (year id6))")
    case (Inl e)
    with False assms(3) show ?thesis
      by (simp add: tag_year_def)
  next
    case (Inr n)
    with False assms(3)
    have r: "id3_add_text avail s (c_str ''TDRC'') (snprintf_d 5 (year id6)) n = Some (Inr s')"
      by (simp add: tag_year_def)
    have "n \<le> 256"
      using strlen_snprintf_d [OF Inr] by simp
    from add_text_tag_inv(1) [OF assms(1,2) this r] show ?thesis .
  qed
qed

lemma main_tags_tag_inv:
  assumes "length (x s0) = unat (a s0)"
    and "main_tags avail embedId3 id6 s0 = Some (Inr s')"
  shows "tag_inv 7 s'"
proof -
  from assms(2) obtain s where i: "id3_init s0 = Inr s"
    and r: "(if embedId3
     then
       and_then (tag_text_field avail s ''TIT2'' (song id6)) (\<lambda>s.
       and_then (tag_text_field avail s ''TALB'' (game id6)) (\<lambda>s.
       and_then (tag_dumper avail s id6) (\<lambda>s.
       and_then (tag_comment avail s id6) (\<lambda>s.
       and_then (tag_text_field avail s ''TPE1'' (artist id6)) (\<lambda>s.
       and_then (tag_text_field avail s ''TPUB'' (publisher id6)) (\<lambda>s.
       tag_year avail s id6))))))
     else Some (Inr s)) = Some (Inr s')"
    unfolding main_tags_def and_then_Inr by auto
  note i0 = id3_init_tag_inv [OF assms(1) i]
  show ?thesis
  proof (cases embedId3)
    case False
    with r have "s' = s"
      by simp
    with i0 show ?thesis
      by (simp add: tag_inv_def)
  next
    case True
    with r obtain s1 s2 s3 s4 s5 s6 where
      t1: "tag_text_field avail s ''TIT2'' (song id6) = Some (Inr s1)"
      and t2: "tag_text_field avail s1 ''TALB'' (game id6) = Some (Inr s2)"
      and t3: "tag_dumper avail s2 id6 = Some (Inr s3)"
      and t4: "tag_comment avail s3 id6 = Some (Inr s4)"
      and t5: "tag_text_field avail s4 ''TPE1'' (artist id6) = Some (Inr s5)"
      and t6: "tag_text_field avail s5 ''TPUB'' (publisher id6) = Some (Inr s6)"
      and t7: "tag_year avail s6 id6 = Some (Inr s')"
      by (auto simp add: and_then_Inr)
    have i1: "tag_inv (Suc 0) s1"
      by (rule tag_text_field_tag_inv [OF i0 _ t1]) simp
    have i2: "tag_inv (Suc (Suc 0)) s2"
      by (rule tag_text_field_tag_inv [OF i1 _ t2]) simp
    have i3: "tag_inv (Suc (Suc (Suc 0))) s3"
      by (rule tag_dumper_tag_inv [OF i2 _ t3]) simp
    have i4: "tag_inv (Suc (Suc (Suc (Suc 0)))) s4"
      by (rule tag_comment_tag_inv [OF i3 _ t4]) simp
    have i5: "tag_inv (Suc (Suc (Suc (Suc (Suc 0))))) s5"
      by (rule tag_text_field_tag_inv [OF i4 _ t5]) simp
    have i6: "tag_inv (Suc (Suc (Suc (Suc (Suc (Suc 0)))))) s6"
      by (rule tag_text_field_tag_inv [OF i5 _ t6]) simp
    have "tag_inv (Suc (Suc (Suc (Suc (Suc (Suc (Suc 0))))))) s'"
      by (rule tag_year_tag_inv [OF i6 _ t7]) simp
    then show ?thesis
      by (simp add: eval_nat_numeral)
  qed
qed

lemma sample_tags_run:
  "main_tags (\<lambda>m. True) True sample_id6 fresh_buffer = Some (Inr sample_tag)"
  by (simp add: main_tags_def and_then_def tag_text_field_def tag_dumper_def tag_comment_def
      tag_year_def sample_id6_def sample_tag_def tag_eval grow_loop.simps)

lemma init_run: "id3_init fresh_buffer = Inr init_buffer"
  using hello_run(1) by (simp add: init_buffer_def)

lemma hello_add_run:
  "id3_add_text (\<lambda>m. True) init_buffer (c_str ''TIT2'') (c_str ''Hello'') 5 =
     Some (Inr hello_buffer)"
  using hello_run(2) by (simp add: init_buffer_def hello_buffer_def)

lemma word_eq_of_unat_sub:
  fixes v l :: "32 word"
  assumes "unat v = unat l - 10" and "10 \<le> unat l"
  shows "v = l - 10"
proof -
  have "unat (l - 10) = unat l - 10"
    using assms(2) by (simp add: unat_sub word_le_nat_alt)
  with assms(1) show ?thesis
    by (simp add: word_unat_eq_iff)
qed

lemma exact_mod: "(m :: nat) < 2 ^ 28 \<Longrightarrow> m mod 2 ^ 28 = m"
  by simp

lemma tag_text_field_prefix:
  assumes w: "length (x s) = unat (a s)" "10 \<le> unat (len s)"
    and n: "strnlen field 256 = Inr n" "n \<noteq> 0"
    and r: "tag_text_field avail s frame field = Some (Inr s')"
  shows "unat (syncsafe_decode (take 4 (drop (unat (len s) + 4) (x s')))) = n + 2"
proof -
  from r n have p: "id3_add_text avail s (c_str frame) field n = Some (Inr s')"
    by (simp add: tag_text_field_def)
  have "n \<le> 256"
    using n(1) by (rule strnlen_le)
  then have "(n + 2) mod 2 ^ 28 = n + 2"
    by simp
  with text_prefix_decodes [OF w p] show ?thesis
    by simp
qed

lemma tag_comment_prefix:
  assumes w: "length (x s) = unat (a s)" "10 \<le> unat (len s)"
    and n: "strnlen (comment id6) 256 = Inr n" "n \<noteq> 0"
    and r: "tag_comment avail s id6 = Some (Inr s')"
  shows "unat (syncsafe_decode (take 4 (drop (unat (len s) + 4) (x s')))) = n + 6"
proof -
  from r n have p: "id3_add_comment avail s (comment id6) n = Some (Inr s')"
    by (simp add: tag_comment_def)
  have "n \<le> 256"
    using n(1) by (rule strnlen_le)
  then have "(n + 6) mod 2 ^ 28 = n + 6"
    by simp
  with comment_prefix_decodes [OF w p] show ?thesis
    by simp
qed

lemma field_runs:
  "strnlen (game sample_id6) 256 = Inr 2"
  "tag_text_field (\<lambda>m. True) init_buffer ''TALB'' (game sample_id6) =
     Some (Inr \<lparr>x = [73, 68, 51, 4, 0, 0, 0, 0, 0, 14,
                      84, 65, 76, 66, 0, 0, 0, 4, 0, 0, 3, 65, 66, 0] @ replicate 4072 0,
                 a = 4096, len = 24\<rparr>)"
  "strnlen (comment (sample_id6\<lparr>comment := c_str ''abc''\<rparr>)) 256 = Inr 3"
  "tag_comment (\<lambda>m. True) init_buffer (sample_id6\<lparr>comment := c_str ''abc''\<rparr>) =
     Some (Inr \<lparr>x = [73, 68, 51, 4, 0, 0, 0, 0, 0, 19,
                    67, 79, 77, 77, 0, 0, 0, 9, 0, 0, 3, 101, 110, 103, 0, 97, 98, 99, 0] @
                   replicate 4067 0, a = 4096, len = 29\<rparr>)"
  by (simp_all add: tag_text_field_def tag_comment_def sample_id6_def init_buffer_def tag_eval
      grow_loop.simps)

lemma abc_runs_init:
  "id3_add_comment (\<lambda>m. True) init_buffer (c_str ''abc'') 3 =
   Some (Inr \<lparr>x = [73, 68, 51, 4, 0, 0, 0, 0, 0, 19,
                    67, 79, 77, 77, 0, 0, 0, 9, 0, 0, 3, 101, 110, 103, 0, 97, 98, 99, 0] @
                   replicate 4067 0, a = 4096, len = 29\<rparr>)"
  "id3_add_private (\<lambda>m. True) init_buffer (c_str ''spc_dumper'') (c_str ''abc'') 3 =
   Some (Inr \<lparr>x = [73, 68, 51, 4, 0, 0, 0, 0, 0, 26,
                    84, 88, 88, 88, 0, 0, 0, 16, 0, 0, 3,
                    115, 112, 99, 95, 100, 117, 109, 112, 101, 114, 0, 97, 98, 99, 0] @
                   replicate 4060 0, a = 4096, len = 36\<rparr>)"
  using abc_runs(1,2) by (simp_all add: init_buffer_def)

section \<open>Fade envelope: the rounding of the doubles\<close>

text \<open>
  \<open>round_to_double n d\<close> is within a relative error of \<open>2 ^ - 53\<close> of \<open>n / d\<close>, so the
  factor of a frame is that close to the quotient of the two counts, a product that close to
  the exact product, and the conversion to \<^verbatim>\<open>int16_t\<close> moves a value towards zero by
  less than 1.
\<close>

lemma bitlen_powi_bounds:
  assumes "0 < n"
  shows "(2 :: rat) powi (bitlen n - 1) \<le> of_int n" "(of_int n :: rat) < 2 powi bitlen n"
proof -
  from assms have b: "2 ^ nat (bitlen n - 1) \<le> n" "n < 2 ^ nat (bitlen n)"
    using bitlen_bounds [of n] by simp_all
  have pos: "0 < bitlen n"
  proof (rule ccontr)
    assume "\<not> 0 < bitlen n"
    then have "nat (bitlen n) = 0"
      by simp
    with b(2) assms show False
      by simp
  qed
  have "(2 :: rat) powi (bitlen n - 1) = of_int (2 ^ nat (bitlen n - 1))"
    using pos by (simp add: power_int_def)
  also have "\<dots> \<le> of_int n"
    using b(1) by (simp only: of_int_le_iff)
  finally show "(2 :: rat) powi (bitlen n - 1) \<le> of_int n" .
  have "(of_int n :: rat) < of_int (2 ^ nat (bitlen n))"
    using b(2) by (simp only: of_int_less_iff)
  also have "\<dots> = 2 powi bitlen n"
    using pos by (simp add: power_int_def)
  finally show "(of_int n :: rat) < 2 powi bitlen n" .
qed

lemma ilog2_test:
  assumes "0 < d"
  shows "(if 0 \<le> k then d * 2 ^ nat k \<le> n else d \<le> n * 2 ^ nat (- k)) \<longleftrightarrow>
    (of_int d :: rat) * 2 powi k \<le> of_int n"
proof (cases "0 \<le> k")
  case True
  have "(of_int d :: rat) * 2 powi k = of_int (d * 2 ^ nat k)"
    using True by (simp add: power_int_def)
  then show ?thesis
    using True by (simp only: of_int_le_iff if_True)
next
  case False
  have p: "(0 :: rat) < 2 ^ nat (- k)"
    by simp
  have "(of_int d :: rat) * 2 powi k \<le> of_int n \<longleftrightarrow>
      (of_int d :: rat) \<le> of_int n * 2 ^ nat (- k)"
    using False p by (simp add: power_int_def field_simps)
  also have "\<dots> \<longleftrightarrow> (of_int d :: rat) \<le> of_int (n * 2 ^ nat (- k))"
    by simp
  also have "\<dots> \<longleftrightarrow> d \<le> n * 2 ^ nat (- k)"
    by (simp only: of_int_le_iff)
  finally show ?thesis
    using False by simp
qed

lemma ilog2_frac_bounds:
  assumes "0 < n" "0 < d"
  shows "(of_int d :: rat) * 2 powi ilog2_frac n d \<le> of_int n"
    and "(of_int n :: rat) < of_int d * 2 powi (ilog2_frac n d + 1)"
proof -
  define k where "k = bitlen n - bitlen d"
  have two: "(2 :: rat) \<noteq> 0"
    by simp
  have dpos: "(0 :: rat) < of_int d"
    using assms by simp
  have lo: "(of_int d :: rat) * 2 powi (k - 1) \<le> of_int n"
  proof -
    have "(of_int d :: rat) * 2 powi (k - 1) \<le> 2 powi bitlen d * 2 powi (k - 1)"
      using bitlen_powi_bounds(2) [OF assms(2)] by (simp add: mult_right_mono)
    also have "\<dots> = 2 powi (bitlen n - 1)"
      unfolding k_def by (simp add: power_int_add [symmetric])
    also have "\<dots> \<le> of_int n"
      by (rule bitlen_powi_bounds(1) [OF assms(1)])
    finally show ?thesis .
  qed
  have hi: "(of_int n :: rat) < of_int d * 2 powi (k + 1)"
  proof -
    have "(of_int n :: rat) < 2 powi bitlen n"
      by (rule bitlen_powi_bounds(2) [OF assms(1)])
    also have "\<dots> = 2 powi (bitlen d - 1) * 2 powi (k + 1)"
      unfolding k_def by (simp add: power_int_add [symmetric])
    also have "\<dots> \<le> of_int d * 2 powi (k + 1)"
      using bitlen_powi_bounds(1) [OF assms(2)] by (simp add: mult_right_mono)
    finally show ?thesis .
  qed
  have e: "ilog2_frac n d = (if (of_int d :: rat) * 2 powi k \<le> of_int n then k else k - 1)"
    unfolding ilog2_frac_def k_def [symmetric] Let_def ilog2_test [OF assms(2)] ..
  show "(of_int d :: rat) * 2 powi ilog2_frac n d \<le> of_int n"
    using lo by (simp add: e)
  show "(of_int n :: rat) < of_int d * 2 powi (ilog2_frac n d + 1)"
    using hi by (simp add: e not_le)
qed

lemma nearest_int:
  fixes num den :: int
  assumes "0 < den"
  defines "q \<equiv> num div den" and "r \<equiv> num mod den"
  defines "m \<equiv> (if 2 * r < den then q else if den < 2 * r then q + 1
                 else if even q then q else q + 1)"
  shows "\<bar>(of_int m :: rat) - of_int num / of_int den\<bar> \<le> 1 / 2"
proof -
  have r: "0 \<le> r" "r < den"
    using assms(1) by (simp_all add: r_def)
  have "num = q * den + r"
    by (simp add: q_def r_def)
  then have "(of_int num :: rat) = of_int q * of_int den + of_int r"
    by (metis of_int_add of_int_mult)
  then have f: "(of_int num :: rat) / of_int den = of_int q + of_int r / of_int den"
    using assms(1) by (simp add: field_simps)
  have dp: "(0 :: rat) < of_int den"
    using assms(1) by simp
  have rb: "(0 :: rat) \<le> of_int r / of_int den" "(of_int r :: rat) / of_int den < 1"
    using r dp by simp_all
  consider "2 * r < den" | "den < 2 * r" | "den = 2 * r"
    by linarith
  then show ?thesis
  proof cases
    case 1
    then have "(of_int (2 * r) :: rat) < of_int den"
      by (simp only: of_int_less_iff)
    then have "(of_int r :: rat) / of_int den < 1 / 2"
      using dp by (simp add: field_simps)
    moreover have "m = q"
      using 1 by (simp add: m_def)
    ultimately show ?thesis
      using rb f by simp
  next
    case 2
    then have "(of_int den :: rat) < of_int (2 * r)"
      by (simp only: of_int_less_iff)
    then have "1 / 2 < (of_int r :: rat) / of_int den"
      using dp by (simp add: field_simps)
    moreover have "m = q + 1"
      using 2 by (simp add: m_def)
    ultimately show ?thesis
      using rb f by simp
  next
    case 3
    then have "(of_int den :: rat) = of_int (2 * r)"
      by simp
    then have "(of_int r :: rat) / of_int den = 1 / 2"
      using dp by (simp add: field_simps)
    moreover have "m = q \<or> m = q + 1"
      using 3 by (simp add: m_def)
    ultimately show ?thesis
      using f by auto
  qed
qed

lemma round_to_double_error:
  assumes "0 < d"
  shows "\<bar>dbl_val (round_to_double n d) - of_int n / of_int d\<bar> \<le> \<bar>of_int n / of_int d\<bar> / 2 ^ 53"
proof (cases "n = 0")
  case True
  then show ?thesis
    by (simp add: round_to_double_def dbl_val_def)
next
  case False
  define e where "e = ilog2_frac \<bar>n\<bar> d - 52"
  define num where "num = (if e < 0 then \<bar>n\<bar> * 2 ^ nat (- e) else \<bar>n\<bar>)"
  define den where "den = (if e < 0 then d else d * 2 ^ nat e)"
  define m where "m = (if 2 * (num mod den) < den then num div den
      else if den < 2 * (num mod den) then num div den + 1
      else if even (num div den) then num div den else num div den + 1)"
  have rd: "round_to_double n d = Dbl (sgn n * m) e"
    unfolding m_def den_def num_def e_def round_to_double_def Let_def
    using False by (simp only: if_False)
  define t :: rat where "t = of_int \<bar>n\<bar> / of_int d"
  have dp: "(0 :: rat) < of_int d"
    using assms by simp
  have np: "0 < \<bar>n\<bar>"
    using False by simp
  have denpos: "0 < den"
    using assms by (simp add: den_def)
  have frac: "(of_int num :: rat) / of_int den = t * 2 powi (- e)"
  proof (cases "e < 0")
    case True
    then show ?thesis
      by (simp add: num_def den_def t_def power_int_def)
  next
    case False
    then show ?thesis
      by (simp add: num_def den_def t_def power_int_def field_simps)
  qed
  have near: "\<bar>(of_int m :: rat) - t * 2 powi (- e)\<bar> \<le> 1 / 2"
    using nearest_int [OF denpos, of num] unfolding m_def frac .
  have pe: "(0 :: rat) < 2 powi e"
    by (simp add: zero_less_power_int)
  have inv: "(2 :: rat) powi (- e) * 2 powi e = 1"
    by (simp add: power_int_add [symmetric])
  have "\<bar>(of_int m :: rat) * 2 powi e - t\<bar> = \<bar>(of_int m - t * 2 powi (- e)) * 2 powi e\<bar>"
    using inv by (simp add: algebra_simps)
  also have "\<dots> = \<bar>of_int m - t * 2 powi (- e)\<bar> * 2 powi e"
    using pe by (simp add: abs_mult)
  also have "\<dots> \<le> 1 / 2 * 2 powi e"
    using near pe by (simp add: mult_right_mono)
  finally have err: "\<bar>(of_int m :: rat) * 2 powi e - t\<bar> \<le> 1 / 2 * 2 powi e" .
  have "(of_int d :: rat) * 2 powi (e + 52) \<le> of_int \<bar>n\<bar>"
    using ilog2_frac_bounds(1) [OF np assms] by (simp add: e_def)
  then have "(2 :: rat) powi (e + 52) \<le> t"
    using dp by (simp add: t_def field_simps)
  moreover have "(2 :: rat) powi (e + 52) = 2 powi e * 2 ^ 52"
    by (simp add: power_int_add)
  ultimately have "1 / 2 * (2 :: rat) powi e \<le> t / 2 ^ 53"
    by (simp add: field_simps)
  with err have b: "\<bar>(of_int m :: rat) * 2 powi e - t\<bar> \<le> t / 2 ^ 53"
    by simp
  have tn: "0 \<le> t"
    using dp by (simp add: t_def)
  have s: "\<bar>(of_int (sgn n) :: rat)\<bar> = 1"
    using False by (simp add: sgn_if)
  have "(of_int n :: rat) / of_int d = of_int (sgn n) * t"
    by (simp add: t_def sgn_if)
  moreover have "dbl_val (round_to_double n d) = of_int (sgn n) * (of_int m * 2 powi e)"
    by (simp add: rd dbl_val_def)
  ultimately have "\<bar>dbl_val (round_to_double n d) - of_int n / of_int d\<bar> =
      \<bar>of_int (sgn n) * (of_int m * 2 powi e - t)\<bar>"
    by (simp add: algebra_simps)
  also have "\<dots> = \<bar>(of_int m :: rat) * 2 powi e - t\<bar>"
    using s by (simp only: abs_mult mult_1)
  also have "\<dots> \<le> t / 2 ^ 53"
    by (rule b)
  also have "t = \<bar>of_int n / of_int d\<bar>"
    using dp by (simp add: t_def)
  finally show ?thesis .
qed

lemma fade_mult_value:
  assumes "framesFade \<noteq> 0"
  shows "fade_mult f i framesFade = Inr (round_to_double (uint (f - i)) (uint framesFade))"
proof -
  have "uint framesFade \<noteq> 0"
    using assms by (simp add: uint_0_iff)
  moreover have "0 \<le> uint framesFade"
    by simp
  ultimately have p: "0 < uint framesFade"
    by linarith
  then show ?thesis
    using assms by (simp add: fade_mult_def dbl_div_def dbl_of_uint_def Let_def)
qed

lemma fade_mult_error:
  assumes "framesFade \<noteq> 0"
  shows "\<exists>d. fade_mult f i framesFade = Inr d \<and>
    \<bar>dbl_val d - of_int (uint (f - i)) / of_int (uint framesFade)\<bar> \<le>
      of_int (uint (f - i)) / of_int (uint framesFade) / 2 ^ 53"
proof -
  have "uint framesFade \<noteq> 0"
    using assms by (simp add: uint_0_iff)
  moreover have "0 \<le> uint framesFade"
    by simp
  ultimately have p: "0 < uint framesFade"
    by linarith
  have "(0 :: rat) \<le> of_int (uint (f - i)) / of_int (uint framesFade)"
    by (intro divide_nonneg_nonneg) (simp_all del: of_int_uint)
  then have "\<bar>(of_int (uint (f - i)) :: rat) / of_int (uint framesFade)\<bar> =
      of_int (uint (f - i)) / of_int (uint framesFade)"
    by (rule abs_of_nonneg)
  with round_to_double_error [OF p, of "uint (f - i)"] show ?thesis
    by (simp add: fade_mult_value [OF assms])
qed

lemma dbl_mul_error:
  "\<bar>dbl_val (dbl_mul p q) - dbl_val p * dbl_val q\<bar> \<le> \<bar>dbl_val p * dbl_val q\<bar> / 2 ^ 53"
proof -
  define e where "e = expo p + expo q"
  define N where "N = mant p * mant q * (if 0 \<le> e then 2 ^ nat e else 1)"
  define D :: int where "D = (if 0 \<le> e then 1 else 2 ^ nat (- e))"
  have m: "dbl_mul p q = round_to_double N D"
    unfolding N_def D_def e_def dbl_mul_def Let_def ..
  have D: "0 < D"
    by (simp add: D_def)
  have "(of_int N :: rat) / of_int D = of_int (mant p) * of_int (mant q) * 2 powi e"
    by (simp add: N_def D_def power_int_def field_simps)
  also have "\<dots> = dbl_val p * dbl_val q"
    by (simp add: dbl_val_def e_def power_int_add)
  finally have v: "(of_int N :: rat) / of_int D = dbl_val p * dbl_val q" .
  show ?thesis
    using round_to_double_error [OF D, of N] unfolding m v .
qed

lemma trunc_div:
  fixes m D :: int
  assumes "0 \<le> m" "0 < D"
  shows "(of_int (m div D) :: rat) \<le> of_int m / of_int D"
    and "(of_int m :: rat) / of_int D < of_int (m div D) + 1"
proof -
  have dp: "(0 :: rat) < of_int D"
    using assms by simp
  have r: "0 \<le> m mod D" "m mod D < D"
    using assms by simp_all
  have "m = m div D * D + m mod D"
    by simp
  then have "(of_int m :: rat) = of_int (m div D) * of_int D + of_int (m mod D)"
    by (metis of_int_add of_int_mult)
  then have f: "(of_int m :: rat) / of_int D = of_int (m div D) + of_int (m mod D) / of_int D"
    using dp by (simp add: field_simps)
  have "(0 :: rat) \<le> of_int (m mod D) / of_int D" "(of_int (m mod D) :: rat) / of_int D < 1"
    using r dp by simp_all
  with f show "(of_int (m div D) :: rat) \<le> of_int m / of_int D"
    and "(of_int m :: rat) / of_int D < of_int (m div D) + 1"
    by simp_all
qed

lemma int16_of_dbl_value:
  assumes "- 32769 < dbl_val p" "dbl_val p < 32768"
  shows "\<exists>v. int16_of_dbl p = Inr v \<and> \<bar>of_int (sint v) - dbl_val p\<bar> < 1 \<and>
    \<bar>of_int (sint v)\<bar> \<le> \<bar>dbl_val p\<bar>"
proof -
  define t where "t = (if 0 \<le> expo p then mant p * 2 ^ nat (expo p)
               else sgn (mant p) * (\<bar>mant p\<bar> div 2 ^ nat (- expo p)))"
  have i: "int16_of_dbl p =
      (if - 32768 \<le> t \<and> t \<le> 32767 then Inr (word_of_int t) else Inl OutOfRange)"
    unfolding t_def int16_of_dbl_def Let_def ..
  have b: "(0 \<le> dbl_val p \<longrightarrow> of_int t \<le> dbl_val p \<and> dbl_val p < of_int t + 1) \<and>
      (dbl_val p \<le> 0 \<longrightarrow> dbl_val p \<le> of_int t \<and> of_int t - 1 < dbl_val p)"
  proof (cases "0 \<le> expo p")
    case True
    then have "dbl_val p = of_int t"
      by (simp add: t_def dbl_val_def power_int_def)
    then show ?thesis
      by simp
  next
    case False
    define D :: int where "D = 2 ^ nat (- expo p)"
    have D: "0 < D"
      by (simp add: D_def)
    have tv: "t = sgn (mant p) * (\<bar>mant p\<bar> div D)"
      using False by (simp add: t_def D_def)
    have "dbl_val p = of_int (mant p) / of_int D"
      using False by (simp add: dbl_val_def D_def power_int_def field_simps)
    also have "\<dots> = of_int (sgn (mant p)) * (of_int \<bar>mant p\<bar> / of_int D)"
      by (simp add: sgn_if)
    finally have v: "dbl_val p = of_int (sgn (mant p)) * (of_int \<bar>mant p\<bar> / of_int D)" .
    have a: "0 \<le> \<bar>mant p\<bar>"
      by simp
    note tr = trunc_div [OF a D]
    have a0: "(0 :: rat) \<le> of_int (\<bar>mant p\<bar> div D)"
      using D by (simp add: pos_imp_zdiv_nonneg_iff)
    consider "mant p = 0" | "0 < mant p" | "mant p < 0"
      by linarith
    then show ?thesis
    proof cases
      case 1
      then show ?thesis
        by (simp add: v tv)
    next
      case 2
      then have "sgn (mant p) = 1"
        by simp
      then show ?thesis
        using tr a0 by (simp add: v tv)
    next
      case 3
      then have "sgn (mant p) = - 1"
        by simp
      then show ?thesis
        using tr a0 by (simp add: v tv)
    qed
  qed
  have lo: "- 32768 \<le> t"
  proof (rule ccontr)
    assume "\<not> - 32768 \<le> t"
    then have "t \<le> - 32769"
      by simp
    then have "(of_int t :: rat) \<le> of_int (- 32769)"
      by (simp only: of_int_le_iff)
    with b assms show False
      by (cases "0 \<le> dbl_val p") auto
  qed
  have hi: "t \<le> 32767"
  proof (rule ccontr)
    assume "\<not> t \<le> 32767"
    then have "32768 \<le> t"
      by simp
    then have "(of_int 32768 :: rat) \<le> of_int t"
      by (simp only: of_int_le_iff)
    with b assms show False
      by (cases "0 \<le> dbl_val p") auto
  qed
  have "sint (word_of_int t :: 16 word) = t"
    using lo hi by (simp add: sint_sbintrunc' signed_take_bit_int_eq_self)
  moreover have "\<bar>of_int t - dbl_val p\<bar> < 1"
    using b by (cases "0 \<le> dbl_val p") auto
  moreover have "\<bar>of_int t\<bar> \<le> \<bar>dbl_val p\<bar>"
    using b by (cases "0 \<le> dbl_val p") auto
  ultimately show ?thesis
    using lo hi by (simp add: i del: of_int_sint)
qed

lemma scaled_sample:
  fixes sample :: "16 word" and q :: rat
  assumes "0 \<le> q" "q \<le> 1" "\<bar>dbl_val d - q\<bar> \<le> q / 2 ^ 53"
  shows "\<exists>v. int16_of_dbl (dbl_mul (dbl_of_int16 sample) d) = Inr v \<and>
    \<bar>of_int (sint v) - of_int (sint sample) * q\<bar> < 1 + 1 / 2 ^ 36 \<and>
    \<bar>of_int (sint v)\<bar> \<le> \<bar>of_int (sint sample)\<bar> * q + 1 / 2 ^ 36"
proof -
  define X :: rat where "X = of_int (sint sample)"
  define pv where "pv = dbl_val (dbl_mul (dbl_of_int16 sample) d)"
  have "- (2 ^ 15) \<le> sint sample" "sint sample < 2 ^ 15"
    using sint_range_size [of sample] by (simp_all add: word_size)
  then have "- 32768 \<le> sint sample" "sint sample \<le> 32767"
    by simp_all
  then have "(of_int (- 32768) :: rat) \<le> of_int (sint sample)"
    "(of_int (sint sample) :: rat) \<le> of_int 32767"
    by (simp_all only: of_int_le_iff)
  then have X: "- 32768 \<le> X" "X \<le> 32767"
    by (simp_all add: X_def)
  then have aX: "\<bar>X\<bar> \<le> 32768"
    by simp
  have xv: "dbl_val (dbl_of_int16 sample) = X"
    by (simp add: dbl_val_def dbl_of_int16_def X_def)
  have e1: "\<bar>pv - X * dbl_val d\<bar> \<le> \<bar>X * dbl_val d\<bar> / 2 ^ 53"
    using dbl_mul_error [of "dbl_of_int16 sample" d] by (simp add: pv_def xv)
  define eps where "eps = q / 2 ^ 53"
  have "eps \<le> q"
    using assms(1) by (simp add: eps_def field_simps)
  moreover have "\<bar>dbl_val d - q\<bar> \<le> eps"
    using assms(3) by (simp only: eps_def)
  ultimately have dv: "0 \<le> dbl_val d" "dbl_val d \<le> 2"
    using assms(1,2) by linarith+
  have "\<bar>X * dbl_val d\<bar> = \<bar>X\<bar> * dbl_val d"
    using dv by (simp add: abs_mult)
  also have "\<dots> \<le> 32768 * 2"
    using aX dv by (intro mult_mono) simp_all
  finally have "\<bar>X * dbl_val d\<bar> / 2 ^ 53 \<le> 65536 / 2 ^ 53"
    by (simp add: divide_right_mono)
  with e1 have e1': "\<bar>pv - X * dbl_val d\<bar> \<le> 65536 / 2 ^ 53"
    by simp
  have "\<bar>X * dbl_val d - X * q\<bar> = \<bar>X\<bar> * \<bar>dbl_val d - q\<bar>"
    by (simp add: abs_mult right_diff_distrib [symmetric])
  also have "\<dots> \<le> 32768 * (1 / 2 ^ 53)"
    using aX assms by (intro mult_mono) (simp_all add: field_simps)
  finally have e2: "\<bar>X * dbl_val d - X * q\<bar> \<le> 32768 / 2 ^ 53"
    by simp
  have e: "\<bar>pv - X * q\<bar> \<le> 98304 / 2 ^ 53"
    using e1' e2 by linarith
  have "\<bar>X * q\<bar> = \<bar>X\<bar> * q"
    using assms by (simp add: abs_mult)
  have q1: "X * q \<le> 32767"
  proof (cases "0 \<le> X")
    case True
    then have "X * q \<le> X * 1"
      using assms by (intro mult_left_mono) simp_all
    with X show ?thesis
      by simp
  next
    case False
    then have "X * q \<le> 0"
      using assms by (simp add: mult_nonpos_nonneg)
    then show ?thesis
      by simp
  qed
  have q2: "- 32768 \<le> X * q"
  proof (cases "0 \<le> X")
    case True
    then have "0 \<le> X * q"
      using assms by simp
    then show ?thesis
      by simp
  next
    case False
    then have "(- X) * q \<le> (- X) * 1"
      using assms by (intro mult_left_mono) simp_all
    with X show ?thesis
      by simp
  qed
  have "(98304 :: rat) / 2 ^ 53 < 1"
    by simp
  with e have "\<bar>pv - X * q\<bar> < 1"
    by (rule le_less_trans)
  then have r: "- 32769 < pv" "pv < 32768"
    using q1 q2 by linarith+
  from int16_of_dbl_value [OF r [unfolded pv_def]]
  obtain v where v: "int16_of_dbl (dbl_mul (dbl_of_int16 sample) d) = Inr v"
    and t: "\<bar>of_int (sint v) - pv\<bar> < 1"
    and m: "\<bar>of_int (sint v)\<bar> \<le> \<bar>pv\<bar>"
    unfolding pv_def by blast
  have s: "(98304 :: rat) / 2 ^ 53 \<le> 1 / 2 ^ 36"
    by simp
  with e t have "\<bar>of_int (sint v) - X * q\<bar> < 1 + 1 / 2 ^ 36"
    by linarith
  moreover have "\<bar>of_int (sint v)\<bar> \<le> \<bar>X\<bar> * q + 1 / 2 ^ 36"
    using e m s \<open>\<bar>X * q\<bar> = \<bar>X\<bar> * q\<close> by linarith
  ultimately show ?thesis
    using v unfolding X_def by blast
qed

lemma frame_index:
  fixes i frameCount :: "32 word"
  assumes "i < frameCount" "unat frameCount < 2 ^ 31"
  shows "unat (i * 2 + 0) = 2 * unat i" "unat (i * 2 + 1) = 2 * unat i + 1"
    "unat (i + 1) = unat i + 1"
proof -
  have i: "unat i < 2 ^ 31"
    using assms by (simp add: word_less_nat_alt)
  then have m: "unat (i * 2) = 2 * unat i"
    by (simp add: unat_word_ariths)
  show "unat (i * 2 + 0) = 2 * unat i"
    using m by simp
  show "unat (i * 2 + 1) = 2 * unat i + 1"
    using i m by (simp add: unat_word_ariths)
  show "unat (i + 1) = unat i + 1"
    using i by (simp add: unat_word_ariths)
qed

lemma fade_ratio_bounds:
  fixes f i framesFade :: "32 word"
  assumes "i \<le> f" "f \<le> framesFade" "framesFade \<noteq> 0"
  shows "(0 :: rat) \<le> of_int (uint (f - i)) / of_int (uint framesFade)"
    and "(of_int (uint (f - i)) :: rat) / of_int (uint framesFade) \<le> 1"
proof -
  have "f - i \<le> f"
    using assms(1) by (rule word_sub_le)
  with assms(2) have "f - i \<le> framesFade"
    by simp
  then have le: "uint (f - i) \<le> uint framesFade"
    by (simp add: word_le_def)
  have "uint framesFade \<noteq> 0"
    using assms(3) by (simp add: uint_0_iff)
  moreover have "0 \<le> uint framesFade"
    by simp
  ultimately have p: "0 < uint framesFade"
    by linarith
  have n: "0 \<le> uint (f - i)"
    by simp
  show "(0 :: rat) \<le> of_int (uint (f - i)) / of_int (uint framesFade)"
    using n p by (intro divide_nonneg_nonneg) (simp_all del: of_int_uint)
  have "(of_int (uint (f - i)) :: rat) \<le> of_int (uint framesFade)"
    using le by (simp only: of_int_le_iff)
  moreover have "(0 :: rat) < of_int (uint framesFade)"
    using p by (simp only: of_int_0_less_iff)
  ultimately show "(of_int (uint (f - i)) :: rat) / of_int (uint framesFade) \<le> 1"
    by (simp del: of_int_uint)
qed

lemma scale_sample_ok:
  assumes "k < length data" "int16_of_dbl (dbl_mul (dbl_of_int16 (data ! k)) fade) = Inr v"
  shows "scale_sample data k fade = Inr (data[k := v])"
  using assms by (simp add: scale_sample_def then_do_def)

lemma fade_loop_spec:
  assumes "2 * unat frameCount \<le> length data" "length data < 2 ^ 32"
    and "frameCount \<le> f" "f \<le> framesFade" "i \<le> frameCount"
  shows "\<exists>out. fade_loop data i f framesFade frameCount = Inr out \<and> length out = length data \<and>
     (\<forall>j<length data. j < 2 * unat i \<or> 2 * unat frameCount \<le> j \<longrightarrow> out ! j = data ! j) \<and>
     (\<forall>k. unat i \<le> k \<and> k < unat frameCount \<longrightarrow>
        (\<exists>d. fade_mult f (of_nat k) framesFade = Inr d \<and>
           int16_of_dbl (dbl_mul (dbl_of_int16 (data ! (2 * k))) d) = Inr (out ! (2 * k)) \<and>
           int16_of_dbl (dbl_mul (dbl_of_int16 (data ! (2 * k + 1))) d) =
             Inr (out ! (2 * k + 1))))"
  using assms(1,2,5)
proof (induction "unat frameCount - unat i" arbitrary: i data)
  case 0
  then have "\<not> i < frameCount"
    by (simp add: word_less_nat_alt)
  then have "fade_loop data i f framesFade frameCount = Inr data"
    by (simp add: fade_loop.simps)
  moreover have "\<not> (unat i \<le> k \<and> k < unat frameCount)" for k
    using 0 by simp
  ultimately show ?case
    by auto
next
  case (Suc n)
  then have lt: "i < frameCount"
    by (simp add: word_less_nat_alt)
  have small: "unat frameCount < 2 ^ 31"
    using Suc.prems(1,2) by simp
  note ix = frame_index [OF lt small]
  have ui: "unat i < unat frameCount"
    using lt by (simp add: word_less_nat_alt)
  have b0: "2 * unat i < length data" and b1: "2 * unat i + 1 < length data"
    using ui Suc.prems(1) by simp_all
  have "i \<le> f"
    using lt assms(3) by simp
  have nz: "framesFade \<noteq> 0"
  proof
    assume "framesFade = 0"
    with assms(3,4) have "frameCount = 0"
      by simp
    with lt show False
      by simp
  qed
  note q = fade_ratio_bounds [OF \<open>i \<le> f\<close> assms(4) nz]
  from fade_mult_error [OF nz, of f i] obtain d where d: "fade_mult f i framesFade = Inr d"
    and de: "\<bar>dbl_val d - of_int (uint (f - i)) / of_int (uint framesFade)\<bar> \<le>
      of_int (uint (f - i)) / of_int (uint framesFade) / 2 ^ 53"
    by blast
  from scaled_sample [OF q de] obtain v0
    where v0: "int16_of_dbl (dbl_mul (dbl_of_int16 (data ! (2 * unat i))) d) = Inr v0"
    by blast
  from scaled_sample [OF q de] obtain v1
    where v1: "int16_of_dbl (dbl_mul (dbl_of_int16 (data ! (2 * unat i + 1))) d) = Inr v1"
    by blast
  define data1 where "data1 = data[2 * unat i := v0]"
  define data2 where "data2 = data1[2 * unat i + 1 := v1]"
  have s0: "scale_sample data (unat (i * 2 + 0)) d = Inr data1"
    unfolding ix data1_def using b0 v0 by (rule scale_sample_ok)
  have "data1 ! (2 * unat i + 1) = data ! (2 * unat i + 1)"
    by (simp add: data1_def)
  with v1 have v1': "int16_of_dbl (dbl_mul (dbl_of_int16 (data1 ! (2 * unat i + 1))) d) = Inr v1"
    by simp
  have "2 * unat i + 1 < length data1"
    using b1 by (simp add: data1_def)
  from this v1' have s1: "scale_sample data1 (unat (i * 2 + 1)) d = Inr data2"
    unfolding ix data2_def by (rule scale_sample_ok)
  have step: "fade_loop data i f framesFade frameCount =
      fade_loop data2 (i + 1) f framesFade frameCount"
    using lt s0 by (subst fade_loop.simps) (simp add: d s1 then_do_def)
  have len2: "length data2 = length data"
    by (simp add: data2_def data1_def)
  have m: "n = unat frameCount - unat (i + 1)"
    using Suc.hyps(2) by (simp add: ix)
  have le: "i + 1 \<le> frameCount"
    using ui by (simp add: word_le_nat_alt ix)
  from Suc.hyps(1) [OF m, of data2] Suc.prems(1,2) le len2
  obtain out where run: "fade_loop data2 (i + 1) f framesFade frameCount = Inr out"
    and len: "length out = length data"
    and same: "\<forall>j<length data. j < 2 * unat (i + 1) \<or> 2 * unat frameCount \<le> j \<longrightarrow>
      out ! j = data2 ! j"
    and frames: "\<forall>k. unat (i + 1) \<le> k \<and> k < unat frameCount \<longrightarrow>
        (\<exists>d. fade_mult f (of_nat k) framesFade = Inr d \<and>
           int16_of_dbl (dbl_mul (dbl_of_int16 (data2 ! (2 * k))) d) = Inr (out ! (2 * k)) \<and>
           int16_of_dbl (dbl_mul (dbl_of_int16 (data2 ! (2 * k + 1))) d) =
             Inr (out ! (2 * k + 1)))"
    by auto
  have other: "data2 ! j = data ! j" if "j \<noteq> 2 * unat i" "j \<noteq> 2 * unat i + 1" for j
    using that by (simp add: data2_def data1_def)
  have o0: "out ! (2 * unat i) = v0"
  proof -
    have "out ! (2 * unat i) = data2 ! (2 * unat i)"
      using same b0 by (simp add: ix)
    then show ?thesis
      using b0 by (simp add: data2_def data1_def)
  qed
  have o1: "out ! (2 * unat i + 1) = v1"
  proof -
    have "out ! (2 * unat i + 1) = data2 ! (2 * unat i + 1)"
      using same b1 by (simp add: ix)
    then show ?thesis
      using b1 by (simp add: data2_def data1_def)
  qed
  have "out ! j = data ! j" if "j < length data" "j < 2 * unat i \<or> 2 * unat frameCount \<le> j" for j
  proof -
    have "out ! j = data2 ! j"
      using same that by (auto simp add: ix)
    moreover have "j \<noteq> 2 * unat i" "j \<noteq> 2 * unat i + 1"
      using that(2) ui by auto
    ultimately show ?thesis
      by (simp add: other)
  qed
  moreover have "\<exists>d. fade_mult f (of_nat k) framesFade = Inr d \<and>
           int16_of_dbl (dbl_mul (dbl_of_int16 (data ! (2 * k))) d) = Inr (out ! (2 * k)) \<and>
           int16_of_dbl (dbl_mul (dbl_of_int16 (data ! (2 * k + 1))) d) =
             Inr (out ! (2 * k + 1))"
    if "unat i \<le> k" "k < unat frameCount" for k
  proof (cases "k = unat i")
    case True
    then show ?thesis
      using d v0 v1 o0 o1 by simp
  next
    case False
    then have k: "unat (i + 1) \<le> k"
      using that(1) by (simp add: ix)
    have "2 * k \<noteq> 2 * unat i" "2 * k \<noteq> 2 * unat i + 1"
      "2 * k + 1 \<noteq> 2 * unat i" "2 * k + 1 \<noteq> 2 * unat i + 1"
      using False by presburger+
    then have "data2 ! (2 * k) = data ! (2 * k)" "data2 ! (2 * k + 1) = data ! (2 * k + 1)"
      by (simp_all add: other)
    with frames k that(2) show ?thesis
      by metis
  qed
  ultimately show ?case
    using step run len by simp
qed

lemma fade_runs:
  "fade_frames [100, - 100] 25 100 1 = Inr [25, - 25]"
  "fade_frames [100, - 100, 100, - 100, 100, - 100] 50 100 3 =
     Inr [50, - 50, 49, - 49, 48, - 48]"
  "fade_frames [100, - 100] 29 100 1 = Inr [28, - 28]"
  by code_simp+

lemma truncated_start:
  assumes "framesRem \<le> framesFade" "frameCount \<le> framesRem"
  shows "fade_frames data framesRem framesFade frameCount =
    fade_loop data 0 framesRem framesFade frameCount"
proof -
  have "framesRem - frameCount \<le> framesRem"
    using assms(2) by (rule word_sub_le)
  with assms(1) have "\<not> framesFade < framesRem - frameCount"
    by simp
  then show ?thesis
    using assms(1) by (simp add: fade_frames_def not_less [symmetric])
qed

lemma spec_multiplier_eq:
  assumes "k < unat frameCount" "frameCount \<le> framesRem"
  shows "spec_multiplier framesRem k framesFade =
    of_int (uint (framesRem - of_nat k)) / of_int (uint framesFade)"
    and "(of_nat k :: 32 word) \<le> framesRem"
proof -
  have "k < 2 ^ 32"
    using assms(1) unsigned_less [of frameCount, where 'a = nat] by simp
  then have k: "unat (of_nat k :: 32 word) = k"
    by (simp add: unat_of_nat)
  have "unat frameCount \<le> unat framesRem"
    using assms(2) by (simp add: word_le_nat_alt)
  with assms(1) have "k \<le> unat framesRem"
    by simp
  then show le: "(of_nat k :: 32 word) \<le> framesRem"
    by (simp add: word_le_nat_alt k)
  then have "unat (framesRem - of_nat k) = unat framesRem - k"
    by (simp add: unat_sub k)
  then have a: "uint (framesRem - of_nat k) = int (unat framesRem - k)"
    by (metis uint_nat)
  have b: "uint framesFade = int (unat framesFade)"
    by (rule uint_nat)
  show "spec_multiplier framesRem k framesFade =
    of_int (uint (framesRem - of_nat k)) / of_int (uint framesFade)"
    unfolding spec_multiplier_def a b of_int_of_nat_eq ..
qed

lemma truncated_frames:
  assumes "framesRem \<le> framesFade" "frameCount \<le> framesRem"
    and "2 * unat frameCount \<le> length data" "length data < 2 ^ 32"
  shows "\<exists>out. fade_frames data framesRem framesFade frameCount = Inr out \<and>
      length out = length data \<and>
      (\<forall>j<length data. 2 * unat frameCount \<le> j \<longrightarrow> out ! j = data ! j) \<and>
      (\<forall>k<unat frameCount. \<exists>d.
         fade_mult framesRem (of_nat k) framesFade = Inr d \<and>
         \<bar>dbl_val d - spec_multiplier framesRem k framesFade\<bar> \<le>
           spec_multiplier framesRem k framesFade / 2 ^ 53 \<and>
         (\<forall>c<2.
            int16_of_dbl (dbl_mul (dbl_of_int16 (data ! (2 * k + c))) d) =
              Inr (out ! (2 * k + c)) \<and>
            \<bar>of_int (sint (out ! (2 * k + c))) -
               of_int (sint (data ! (2 * k + c))) * spec_multiplier framesRem k framesFade\<bar> <
              1 + 1 / 2 ^ 36 \<and>
            \<bar>of_int (sint (out ! (2 * k + c)))\<bar> \<le>
              \<bar>of_int (sint (data ! (2 * k + c)))\<bar> * spec_multiplier framesRem k framesFade +
                1 / 2 ^ 36))"
proof -
  have z: "(0 :: 32 word) \<le> frameCount"
    by simp
  from fade_loop_spec [OF assms(3,4) assms(2,1) z]
  obtain out where run: "fade_loop data 0 framesRem framesFade frameCount = Inr out"
    and len: "length out = length data"
    and same: "\<forall>j<length data. j < 2 * unat (0 :: 32 word) \<or> 2 * unat frameCount \<le> j \<longrightarrow>
      out ! j = data ! j"
    and frames: "\<forall>k. unat (0 :: 32 word) \<le> k \<and> k < unat frameCount \<longrightarrow>
        (\<exists>d. fade_mult framesRem (of_nat k) framesFade = Inr d \<and>
           int16_of_dbl (dbl_mul (dbl_of_int16 (data ! (2 * k))) d) = Inr (out ! (2 * k)) \<and>
           int16_of_dbl (dbl_mul (dbl_of_int16 (data ! (2 * k + 1))) d) =
             Inr (out ! (2 * k + 1)))"
    by blast
  have "\<exists>d. fade_mult framesRem (of_nat k) framesFade = Inr d \<and>
         \<bar>dbl_val d - spec_multiplier framesRem k framesFade\<bar> \<le>
           spec_multiplier framesRem k framesFade / 2 ^ 53 \<and>
         (\<forall>c<2.
            int16_of_dbl (dbl_mul (dbl_of_int16 (data ! (2 * k + c))) d) =
              Inr (out ! (2 * k + c)) \<and>
            \<bar>of_int (sint (out ! (2 * k + c))) -
               of_int (sint (data ! (2 * k + c))) * spec_multiplier framesRem k framesFade\<bar> <
              1 + 1 / 2 ^ 36 \<and>
            \<bar>of_int (sint (out ! (2 * k + c)))\<bar> \<le>
              \<bar>of_int (sint (data ! (2 * k + c)))\<bar> * spec_multiplier framesRem k framesFade +
                1 / 2 ^ 36)"
    if k: "k < unat frameCount" for k
  proof -
    note sm = spec_multiplier_eq(1) [OF k assms(2), of framesFade]
      spec_multiplier_eq(2) [OF k assms(2)]
    have nz: "framesFade \<noteq> 0"
    proof
      assume "framesFade = 0"
      with assms(1,2) have "frameCount = 0"
        by simp
      with k show False
        by simp
    qed
    from frames k obtain d where d: "fade_mult framesRem (of_nat k) framesFade = Inr d"
      and s0: "int16_of_dbl (dbl_mul (dbl_of_int16 (data ! (2 * k))) d) = Inr (out ! (2 * k))"
      and s1: "int16_of_dbl (dbl_mul (dbl_of_int16 (data ! (2 * k + 1))) d) =
        Inr (out ! (2 * k + 1))"
      by auto
    from fade_mult_error [OF nz, of framesRem "of_nat k"] d
    have de: "\<bar>dbl_val d - spec_multiplier framesRem k framesFade\<bar> \<le>
        spec_multiplier framesRem k framesFade / 2 ^ 53"
      unfolding sm(1) by simp
    note q = fade_ratio_bounds [OF sm(2) assms(1) nz, folded sm(1)]
    have b0: "\<bar>of_int (sint (out ! (2 * k))) -
        of_int (sint (data ! (2 * k))) * spec_multiplier framesRem k framesFade\<bar> < 1 + 1 / 2 ^ 36"
      "\<bar>of_int (sint (out ! (2 * k)))\<bar> \<le>
        \<bar>of_int (sint (data ! (2 * k)))\<bar> * spec_multiplier framesRem k framesFade + 1 / 2 ^ 36"
      using scaled_sample [OF q de, of "data ! (2 * k)"] s0 by auto+
    have b1: "\<bar>of_int (sint (out ! (2 * k + 1))) -
        of_int (sint (data ! (2 * k + 1))) * spec_multiplier framesRem k framesFade\<bar> <
        1 + 1 / 2 ^ 36"
      "\<bar>of_int (sint (out ! (2 * k + 1)))\<bar> \<le>
        \<bar>of_int (sint (data ! (2 * k + 1)))\<bar> * spec_multiplier framesRem k framesFade +
        1 / 2 ^ 36"
      using scaled_sample [OF q de, of "data ! (2 * k + 1)"] s1 by auto+
    have "int16_of_dbl (dbl_mul (dbl_of_int16 (data ! (2 * k + c))) d) =
              Inr (out ! (2 * k + c)) \<and>
            \<bar>of_int (sint (out ! (2 * k + c))) -
               of_int (sint (data ! (2 * k + c))) * spec_multiplier framesRem k framesFade\<bar> <
              1 + 1 / 2 ^ 36 \<and>
            \<bar>of_int (sint (out ! (2 * k + c)))\<bar> \<le>
              \<bar>of_int (sint (data ! (2 * k + c)))\<bar> * spec_multiplier framesRem k framesFade +
                1 / 2 ^ 36" if "c < 2" for c
    proof -
      from that have "c = 0 \<or> c = 1"
        by auto
      then show ?thesis
        using s0 s1 b0 b1 by (elim disjE) (simp_all only: add_0_right)
    qed
    with d de show ?thesis
      by blast
  qed
  with run len same show ?thesis
    unfolding truncated_start [OF assms(1,2)] by blast
qed

section \<open>Claims\<close>

text \<open>
  C1 (as amended). The decoder yields \<open>(100, -100)\<close> for every frame and the render
  loop runs with \<open>totalFrames = 10\<close> and \<open>fadeFrames = 5\<close>, in a single chunk.
  Frames 0 to 5 are written unscaled (frame 5 has multiplier \<open>5 / 5\<close>), and frames 6
  to 9 are \<open>(80, -80)\<close>, \<open>(60, -60)\<close>, \<open>(40, -40)\<close>, \<open>(20, -20)\<close>: the
  multiplier of frame \<open>i\<close> is \<open>(10 - i) / 5\<close>, which is \<open>1 / 5\<close> at the last
  frame.
\<close>

theorem render_fade_scenario:
  "fade_frames (fst (const_decode () 20)) 10 5 10 =
     Inr [100, - 100, 100, - 100, 100, - 100, 100, - 100, 100, - 100, 100, - 100,
          80, - 80, 60, - 60, 40, - 40, 20, - 20] \<and>
   render_loop const_decode () \<lparr>written = [], room = 40\<rparr> 10 5 =
     Inr \<lparr>written = concat (map pack_int16le
              [100, - 100, 100, - 100, 100, - 100, 100, - 100, 100, - 100, 100, - 100,
               80, - 80, 60, - 60, 40, - 40, 20, - 20]), room = 0\<rparr>"
  using fade_run render_run by simp

text \<open>
  The claim as first stated fails at frames 5 and 9: frame 5 is still \<open>(100, -100)\<close>
  and frame 9 is \<open>(20, -20)\<close>, not 0.
\<close>

theorem render_fade_scenario_counterexample:
  "case render_loop const_decode () \<lparr>written = [], room = 40\<rparr> 10 5 of
     Inl e \<Rightarrow> False
   | Inr out \<Rightarrow>
       take 4 (drop (4 * 5) (written out)) = pack_int16le 100 @ pack_int16le (- 100) \<and>
       take 4 (drop (4 * 9) (written out)) = pack_int16le 20 @ pack_int16le (- 20) \<and>
       pack_int16le 20 @ pack_int16le (- 20) \<noteq> pack_int16le 0 @ pack_int16le 0"
  by (simp add: render_run pack_int16le_def)

text \<open>
  C2 (as amended). On a file that accepts the 44 header bytes, \<open>write_wav_header\<close>
  writes a data-size field equal to \<open>totalFrames * 2 * 2\<close> reduced modulo \<open>2 ^ 32\<close>
  and a RIFF size field equal to that value plus \<open>44 - 8\<close> plus, when the tag's used
  length exceeds 10, that length plus 8, again reduced modulo \<open>2 ^ 32\<close>. For
  \<open>totalFrames = 1000\<close> and a tag with no frames the fields are 4000 and 4036.
\<close>

theorem write_wav_header_sizes:
  "(44 \<le> room f \<longrightarrow>
      (\<exists>hdr f'. write_wav_header f totalFrames id3 = Inr (1, f') \<and>
         written f' = written f @ hdr \<and> length hdr = 44 \<and>
         unat (uint32le_decode (take 4 (drop 40 hdr))) = (unat totalFrames * 2 * 2) mod 2 ^ 32 \<and>
         unat (uint32le_decode (take 4 (drop 4 hdr))) =
           ((unat totalFrames * 2 * 2) mod 2 ^ 32 + 44 - 8 +
            (if 10 < unat (len id3) then unat (len id3) + 8 else 0)) mod 2 ^ 32)) \<and>
   (44 \<le> room f \<and> totalFrames = 1000 \<and> len id3 = 10 \<longrightarrow>
      (\<exists>hdr f'. write_wav_header f totalFrames id3 = Inr (1, f') \<and>
         written f' = written f @ hdr \<and>
         uint32le_decode (take 4 (drop 40 hdr)) = 4000 \<and>
         uint32le_decode (take 4 (drop 4 hdr)) = 4036))"
proof (intro conjI impI; (elim conjE)?)
  assume r: "44 \<le> room f"
  let ?hdr = "wav_header_bytes totalFrames id3"
  have "unat (uint32le_decode (take 4 (drop 4 ?hdr))) =
           ((unat totalFrames * 2 * 2) mod 2 ^ 32 + 44 - 8 +
            (if 10 < unat (len id3) then unat (len id3) + 8 else 0)) mod 2 ^ 32"
    unfolding wav_header_fields uint32le_decode_pack unat_riffSize unat_dataSize ..
  moreover have d: "unat (uint32le_decode (take 4 (drop 40 ?hdr))) =
      (unat totalFrames * 2 * 2) mod 2 ^ 32"
    unfolding wav_header_fields uint32le_decode_pack unat_dataSize ..
  ultimately show "\<exists>hdr f'. write_wav_header f totalFrames id3 = Inr (1, f') \<and>
         written f' = written f @ hdr \<and> length hdr = 44 \<and>
         unat (uint32le_decode (take 4 (drop 40 hdr))) = (unat totalFrames * 2 * 2) mod 2 ^ 32 \<and>
         unat (uint32le_decode (take 4 (drop 4 hdr))) =
           ((unat totalFrames * 2 * 2) mod 2 ^ 32 + 44 - 8 +
            (if 10 < unat (len id3) then unat (len id3) + 8 else 0)) mod 2 ^ 32"
    using write_wav_header_ok [OF r, of totalFrames id3] d written_emit [of f ?hdr]
      wav_header_fields(1) [of totalFrames id3]
    by blast
next
  assume r: "44 \<le> room f" and t: "totalFrames = 1000" and l: "len id3 = 10"
  let ?hdr = "wav_header_bytes totalFrames id3"
  show "\<exists>hdr f'. write_wav_header f totalFrames id3 = Inr (1, f') \<and>
         written f' = written f @ hdr \<and>
         uint32le_decode (take 4 (drop 40 hdr)) = 4000 \<and>
         uint32le_decode (take 4 (drop 4 hdr)) = 4036"
    using write_wav_header_ok [OF r, of totalFrames id3] t l
    by (intro exI [of _ ?hdr] exI [of _ "emit f ?hdr"])
      (simp add: written_emit wav_header_fields uint32le_decode_pack)
qed

theorem write_wav_header_sizes_witness:
  "44 \<le> room \<lparr>written = [], room = 44\<rparr> \<and>
   (\<exists>hdr f'. write_wav_header \<lparr>written = [], room = 44\<rparr> 1000
        init_buffer =
        Inr (1, f') \<and>
      written f' = hdr \<and> length hdr = 44 \<and>
      uint32le_decode (take 4 (drop 40 hdr)) = 4000 \<and>
      uint32le_decode (take 4 (drop 4 hdr)) = 4036)"
  using write_wav_header_sizes [of "\<lparr>written = [], room = 44\<rparr>" 1000
      init_buffer]
  by (auto simp add: init_buffer_def)

text \<open>
  The claim as first stated, for every \<open>totalFrames\<close>, fails: with
  \<open>--length=33555\<close> the frame count is \<open>33555 * 32000 = 1073760000\<close>, four times
  that does not fit 32 bits, and the data-size field holds 72704.
\<close>

theorem write_wav_header_sizes_counterexample:
  "case write_wav_header \<lparr>written = [], room = 44\<rparr> 1073760000
        init_buffer of
     Inl e \<Rightarrow> False
   | Inr (r, f') \<Rightarrow>
       unat (uint32le_decode (take 4 (drop 40 (written f')))) = 72704 \<and>
       (72704 :: nat) \<noteq> 1073760000 * 2 * 2"
proof -
  let ?f = "\<lparr>written = [], room = 44\<rparr>"
  let ?t = init_buffer
  have ok: "write_wav_header ?f 1073760000 ?t = Inr (1, emit ?f (wav_header_bytes 1073760000 ?t))"
    by (rule write_wav_header_ok) simp
  have "written ?f = []"
    by simp
  moreover have "unat (uint32le_decode (take 4 (drop 40 (wav_header_bytes 1073760000 ?t)))) =
          (unat (1073760000 :: 64 word) * 2 * 2) mod 2 ^ 32"
    unfolding wav_header_fields uint32le_decode_pack unat_dataSize ..
  then have "unat (uint32le_decode (take 4 (drop 40 (wav_header_bytes 1073760000 ?t)))) = 72704"
    by simp
  ultimately show ?thesis
    unfolding ok by (simp add: written_emit)
qed

text \<open>
  C3. After \<open>id3_init\<close> the used length is 10 and the size field at offset 6 decodes to
  0; on a buffer whose storage has the recorded capacity this is \<open>tag_inv 0\<close>. Every
  successful \<open>id3_add_text\<close>, \<open>id3_add_comment\<close> and \<open>id3_add_private\<close> on a buffer
  with \<open>tag_inv k\<close>, with at most 256 bytes of data (what \<^verbatim>\<open>strnlen(.., 256)\<close> gives;
  for the private frame a description of at most 10 bytes, as \<^verbatim>\<open>spc_dumper\<close>), leaves
  the field decoding to exactly the used length minus 10, and \<open>tag_inv (Suc k)\<close>: the
  invariant is kept from one frame to the next. After the whole tag section of \<open>main\<close>,
  whatever the metadata, the field decodes to the used length minus 10, which is at most
  1963.
\<close>

theorem id3_size_field_invariant:
  "(10 \<le> length (x s0) \<longrightarrow>
      (\<exists>s. id3_init s0 = Inr s \<and> len s = 10 \<and>
           syncsafe_decode (take 4 (drop 6 (x s))) = 0 \<and>
           (length (x s0) = unat (a s0) \<longrightarrow> tag_inv 0 s))) \<and>
   (tag_inv k s \<and> 279 * Suc k < 2 ^ 28 \<and> n \<le> 256 \<and>
    (id3_add_text avail s frame data n = Some (Inr s') \<or>
     id3_add_comment avail s data n = Some (Inr s') \<or>
     id3_add_private avail s description data n = Some (Inr s') \<and>
       strlen description = Inr d \<and> d \<le> 10) \<longrightarrow>
      syncsafe_decode (take 4 (drop 6 (x s'))) = len s' - 10 \<and> 10 \<le> unat (len s') \<and>
      tag_inv (Suc k) s') \<and>
   (length (x s0) = unat (a s0) \<and> main_tags avail embedId3 id6 s0 = Some (Inr s') \<longrightarrow>
      syncsafe_decode (take 4 (drop 6 (x s'))) = len s' - 10 \<and> 10 \<le> unat (len s') \<and>
      unat (len s') \<le> 1963)"
proof (intro conjI impI; (elim conjE)?)
  assume h: "10 \<le> length (x s0)"
  from id3_init_Inr [OF h] obtain s where s: "id3_init s0 = Inr s" "len s = 10"
    "syncsafe_decode (take 4 (drop 6 (x s))) = 0"
    by (auto simp add: syncsafe_decode_zero)
  have "length (x s0) = unat (a s0) \<longrightarrow> tag_inv 0 s"
    using id3_init_tag_inv [OF _ s(1)] by blast
  with s show "\<exists>s. id3_init s0 = Inr s \<and> len s = 10 \<and>
           syncsafe_decode (take 4 (drop 6 (x s))) = 0 \<and>
           (length (x s0) = unat (a s0) \<longrightarrow> tag_inv 0 s)"
    by blast
next
  assume inv: "tag_inv k s" and k: "279 * Suc k < 2 ^ 28" and n: "n \<le> 256"
    and r: "id3_add_text avail s frame data n = Some (Inr s') \<or>
     id3_add_comment avail s data n = Some (Inr s') \<or>
     id3_add_private avail s description data n = Some (Inr s') \<and>
       strlen description = Inr d \<and> d \<le> 10"
  from r have "tag_inv (Suc k) s' \<and> syncsafe_decode (take 4 (drop 6 (x s'))) = len s' - 10 \<and>
      10 \<le> unat (len s')"
  proof (elim disjE conjE)
    assume "id3_add_text avail s frame data n = Some (Inr s')"
    from add_text_tag_inv [OF inv k n this] show ?thesis
      by simp
  next
    assume "id3_add_comment avail s data n = Some (Inr s')"
    from add_comment_tag_inv [OF inv k n this] show ?thesis
      by simp
  next
    assume "id3_add_private avail s description data n = Some (Inr s')"
      and "strlen description = Inr d" and "d \<le> 10"
    from add_private_tag_inv [OF inv k n this] show ?thesis
      by simp
  qed
  then show "syncsafe_decode (take 4 (drop 6 (x s'))) = len s' - 10"
    and "10 \<le> unat (len s')" and "tag_inv (Suc k) s'"
    by simp_all
next
  assume h: "length (x s0) = unat (a s0)" "main_tags avail embedId3 id6 s0 = Some (Inr s')"
  from main_tags_tag_inv [OF h] have i: "tag_inv 7 s'" .
  then show "10 \<le> unat (len s')" and "unat (len s') \<le> 1963"
    by (simp_all add: tag_inv_def)
  from i show "syncsafe_decode (take 4 (drop 6 (x s'))) = len s' - 10"
    by (intro word_eq_of_unat_sub) (simp_all add: tag_inv_def)
qed

theorem id3_size_field_invariant_witness:
  "10 \<le> length (x fresh_buffer) \<and> length (x fresh_buffer) = unat (a fresh_buffer) \<and>
   id3_init fresh_buffer = Inr init_buffer \<and> len init_buffer = 10 \<and>
   syncsafe_decode (take 4 (drop 6 (x init_buffer))) = 0 \<and> tag_inv 0 init_buffer \<and>
   id3_add_text (\<lambda>m. True) init_buffer (c_str ''TIT2'') (c_str ''Hello'') 5 =
     Some (Inr hello_buffer) \<and>
   len hello_buffer = 27 \<and> syncsafe_decode (take 4 (drop 6 (x hello_buffer))) = 17 \<and>
   tag_inv 1 hello_buffer \<and>
   main_tags (\<lambda>m. True) True sample_id6 fresh_buffer = Some (Inr sample_tag) \<and>
   len sample_tag = 49 \<and> syncsafe_decode (take 4 (drop 6 (x sample_tag))) = 39"
proof -
  have f: "10 \<le> length (x fresh_buffer)" "length (x fresh_buffer) = unat (a fresh_buffer)"
    by (simp_all add: fresh_buffer_def)
  note t1 = id3_size_field_invariant [of fresh_buffer 0 init_buffer 5 "\<lambda>m. True"
      "c_str ''TIT2''" "c_str ''Hello''" hello_buffer "c_str ''spc_dumper''" 10 True sample_id6]
  note t2 = id3_size_field_invariant [of fresh_buffer 0 init_buffer 5 "\<lambda>m. True"
      "c_str ''TIT2''" "c_str ''Hello''" sample_tag "c_str ''spc_dumper''" 10 True sample_id6]
  from t1 f init_run have i0: "tag_inv 0 init_buffer"
    and z: "syncsafe_decode (take 4 (drop 6 (x init_buffer))) = 0"
    by auto
  have b: "279 * Suc 0 < (2 :: nat) ^ 28" "(5 :: nat) \<le> 256"
    by simp_all
  from t1 i0 b hello_add_run
  have h: "syncsafe_decode (take 4 (drop 6 (x hello_buffer))) = len hello_buffer - 10"
    "tag_inv (Suc 0) hello_buffer"
    by blast+
  from t2 f sample_tags_run
  have m: "syncsafe_decode (take 4 (drop 6 (x sample_tag))) = len sample_tag - 10"
    by blast
  have l: "len init_buffer = 10" "len hello_buffer = 27" "len sample_tag = 49"
    by (simp_all add: init_buffer_def hello_buffer_def sample_tag_def)
  show ?thesis
    using f init_run hello_add_run sample_tags_run i0 z h m l by simp
qed

text \<open>
  C4. Syncsafe round trip: every 32-bit value below \<open>2 ^ 28\<close> is read back unchanged
  from the four bytes \<open>pack_uint32_syncsafe\<close> produces, and for every value the bits 28
  and above have no effect on the output: the value and its low 28 bits are packed alike,
  and the bytes decode to the low 28 bits.
\<close>

theorem pack_uint32_syncsafe_roundtrip:
  "(v < 2 ^ 28 \<longrightarrow> syncsafe_decode (pack_uint32_syncsafe v) = v) \<and>
   pack_uint32_syncsafe v = pack_uint32_syncsafe (v AND 0x0FFFFFFF) \<and>
   syncsafe_decode (pack_uint32_syncsafe v) = v AND 0x0FFFFFFF"
proof (intro conjI impI)
  assume "v < 2 ^ 28"
  then have "v AND mask 28 = v"
    by (rule less_mask_eq)
  then show "syncsafe_decode (pack_uint32_syncsafe v) = v"
    by (simp add: syncsafe_decode_pack syncsafe_mask_28)
next
  show "pack_uint32_syncsafe v = pack_uint32_syncsafe (v AND 0x0FFFFFFF)"
    by (simp add: pack_uint32_syncsafe_low_bits)
next
  show "syncsafe_decode (pack_uint32_syncsafe v) = v AND 0x0FFFFFFF"
    by (rule syncsafe_decode_pack)
qed

theorem pack_uint32_syncsafe_roundtrip_witness:
  "(0x0ABCDEF :: 32 word) < 2 ^ 28 \<and>
   syncsafe_decode (pack_uint32_syncsafe 0x0ABCDEF) = 0x0ABCDEF \<and>
   pack_uint32_syncsafe 0xF0ABCDEF = pack_uint32_syncsafe 0x0ABCDEF"
  using pack_uint32_syncsafe_roundtrip [of "0x0ABCDEF"]
    pack_uint32_syncsafe_roundtrip [of "0xF0ABCDEF"]
  by simp

text \<open>
  C5. In a buffer whose storage has the recorded capacity and whose used length is at least
  10, the syncsafe payload-length prefix of the frame a successful call appends (the four
  bytes after the frame identifier) decodes to exactly \<open>n + 2\<close> for \<open>id3_add_text\<close>,
  \<open>n + 6\<close> for \<open>id3_add_comment\<close> and \<open>1 + d + 1 + n + 1\<close> for \<open>id3_add_private\<close>,
  where \<open>n\<close> is the data length and \<open>d\<close> the length of the description, as long as
  that payload length is below \<open>2 ^ 28\<close>, what four syncsafe bytes hold. The calls of
  \<open>main\<close> pass the \<^verbatim>\<open>strnlen(.., 256)\<close> of a field, so for them the prefix is exact
  with no further condition. Adding the 5-byte text \<open>Hello\<close> to a buffer just initialised
  makes the used length 27 and the size field decode to 17.
\<close>

theorem id3_payload_length_prefix:
  "(length (x s) = unat (a s) \<and> 10 \<le> unat (len s) \<longrightarrow>
      (id3_add_text avail s frame data n = Some (Inr s') \<and> n + 2 < 2 ^ 28 \<longrightarrow>
         unat (syncsafe_decode (take 4 (drop (unat (len s) + 4) (x s')))) = n + 2) \<and>
      (id3_add_comment avail s data n = Some (Inr s') \<and> n + 6 < 2 ^ 28 \<longrightarrow>
         unat (syncsafe_decode (take 4 (drop (unat (len s) + 4) (x s')))) = n + 6) \<and>
      (id3_add_private avail s description data n = Some (Inr s') \<and>
       strlen description = Inr d \<and> 1 + d + 1 + n + 1 < 2 ^ 28 \<longrightarrow>
         unat (syncsafe_decode (take 4 (drop (unat (len s) + 4) (x s')))) = 1 + d + 1 + n + 1) \<and>
      (strnlen field 256 = Inr n \<and> n \<noteq> 0 \<and>
       tag_text_field avail s tag field = Some (Inr s') \<longrightarrow>
         unat (syncsafe_decode (take 4 (drop (unat (len s) + 4) (x s')))) = n + 2) \<and>
      (strnlen (comment id6) 256 = Inr n \<and> n \<noteq> 0 \<and>
       tag_comment avail s id6 = Some (Inr s') \<longrightarrow>
         unat (syncsafe_decode (take 4 (drop (unat (len s) + 4) (x s')))) = n + 6)) \<and>
   (length (x s0) = unat (a s0) \<and> id3_init s0 = Inr s1 \<and>
    id3_add_text avail s1 frame (c_str ''Hello'') 5 = Some (Inr s2) \<longrightarrow>
      unat (len s2) = 27 \<and> syncsafe_decode (take 4 (drop 6 (x s2))) = 17)"
proof (intro conjI impI; (elim conjE)?)
  assume w: "length (x s) = unat (a s)" "10 \<le> unat (len s)"
  {
    assume "id3_add_text avail s frame data n = Some (Inr s')" and "n + 2 < 2 ^ 28"
    with text_prefix_decodes [OF w]
    show "unat (syncsafe_decode (take 4 (drop (unat (len s) + 4) (x s')))) = n + 2"
      by (simp add: exact_mod)
  next
    assume "id3_add_comment avail s data n = Some (Inr s')" and "n + 6 < 2 ^ 28"
    with comment_prefix_decodes [OF w]
    show "unat (syncsafe_decode (take 4 (drop (unat (len s) + 4) (x s')))) = n + 6"
      by (simp add: exact_mod)
  next
    assume "id3_add_private avail s description data n = Some (Inr s')"
      and "strlen description = Inr d" and "1 + d + 1 + n + 1 < 2 ^ 28"
    with private_prefix_decodes [OF w, of avail description data n s' d]
    show "unat (syncsafe_decode (take 4 (drop (unat (len s) + 4) (x s')))) = 1 + d + 1 + n + 1"
      by (simp add: exact_mod)
  next
    assume "strnlen field 256 = Inr n" and "n \<noteq> 0"
      and "tag_text_field avail s tag field = Some (Inr s')"
    from tag_text_field_prefix [OF w this]
    show "unat (syncsafe_decode (take 4 (drop (unat (len s) + 4) (x s')))) = n + 2" .
  next
    assume "strnlen (comment id6) 256 = Inr n" and "n \<noteq> 0"
      and "tag_comment avail s id6 = Some (Inr s')"
    from tag_comment_prefix [OF w this]
    show "unat (syncsafe_decode (take 4 (drop (unat (len s) + 4) (x s')))) = n + 6" .
  }
next
  assume h: "length (x s0) = unat (a s0)" "id3_init s0 = Inr s1"
    "id3_add_text avail s1 frame (c_str ''Hello'') 5 = Some (Inr s2)"
  from hello_frame [OF h] show "unat (len s2) = 27"
    and "syncsafe_decode (take 4 (drop 6 (x s2))) = 17" .
qed

theorem id3_payload_length_prefix_witness:
  "\<exists>s3 s4 s5.
     id3_init fresh_buffer = Inr init_buffer \<and>
     length (x fresh_buffer) = unat (a fresh_buffer) \<and>
     length (x init_buffer) = unat (a init_buffer) \<and> 10 \<le> unat (len init_buffer) \<and>
     id3_add_text (\<lambda>m. True) init_buffer (c_str ''TIT2'') (c_str ''Hello'') 5 =
       Some (Inr hello_buffer) \<and>
     unat (syncsafe_decode (take 4 (drop (unat (len init_buffer) + 4) (x hello_buffer)))) = 5 + 2 \<and>
     unat (len hello_buffer) = 27 \<and>
     syncsafe_decode (take 4 (drop 6 (x hello_buffer))) = 17 \<and>
     id3_add_comment (\<lambda>m. True) init_buffer (c_str ''abc'') 3 = Some (Inr s3) \<and>
     unat (syncsafe_decode (take 4 (drop (unat (len init_buffer) + 4) (x s3)))) = 3 + 6 \<and>
     id3_add_private (\<lambda>m. True) init_buffer (c_str ''spc_dumper'') (c_str ''abc'') 3 =
       Some (Inr s4) \<and>
     strlen (c_str ''spc_dumper'') = Inr 10 \<and>
     unat (syncsafe_decode (take 4 (drop (unat (len init_buffer) + 4) (x s4)))) =
       1 + 10 + 1 + 3 + 1 \<and>
     strnlen (game sample_id6) 256 = Inr 2 \<and>
     tag_text_field (\<lambda>m. True) init_buffer ''TALB'' (game sample_id6) = Some (Inr s5) \<and>
     unat (syncsafe_decode (take 4 (drop (unat (len init_buffer) + 4) (x s5)))) = 2 + 2 \<and>
     strnlen (comment (sample_id6\<lparr>comment := c_str ''abc''\<rparr>)) 256 = Inr 3 \<and>
     tag_comment (\<lambda>m. True) init_buffer (sample_id6\<lparr>comment := c_str ''abc''\<rparr>) =
       Some (Inr s3)"
proof -
  let ?s3 = "\<lparr>x = [73, 68, 51, 4, 0, 0, 0, 0, 0, 19,
                    67, 79, 77, 77, 0, 0, 0, 9, 0, 0, 3, 101, 110, 103, 0, 97, 98, 99, 0] @
                   replicate 4067 0, a = 4096, len = 29\<rparr>"
  let ?s4 = "\<lparr>x = [73, 68, 51, 4, 0, 0, 0, 0, 0, 26,
                    84, 88, 88, 88, 0, 0, 0, 16, 0, 0, 3,
                    115, 112, 99, 95, 100, 117, 109, 112, 101, 114, 0, 97, 98, 99, 0] @
                   replicate 4060 0, a = 4096, len = 36\<rparr>"
  let ?s5 = "\<lparr>x = [73, 68, 51, 4, 0, 0, 0, 0, 0, 14,
                      84, 65, 76, 66, 0, 0, 0, 4, 0, 0, 3, 65, 66, 0] @ replicate 4072 0,
                 a = 4096, len = 24\<rparr>"
  let ?rec = "sample_id6\<lparr>comment := c_str ''abc''\<rparr>"
  have w: "length (x init_buffer) = unat (a init_buffer)" "10 \<le> unat (len init_buffer)"
    "length (x fresh_buffer) = unat (a fresh_buffer)"
    by (simp_all add: fresh_buffer_def init_buffer_def)
  have b: "(5 :: nat) + 2 < 2 ^ 28" "(3 :: nat) + 6 < 2 ^ 28" "(1 :: nat) + 10 + 1 + 3 + 1 < 2 ^ 28"
    "(2 :: nat) \<noteq> 0" "(3 :: nat) \<noteq> 0"
    by simp_all
  note t = id3_payload_length_prefix [where s = init_buffer and avail = "\<lambda>m. True"
      and frame = "c_str ''TIT2''" and data = "c_str ''Hello''" and n = 5 and s' = hello_buffer
      and ?s0.0 = fresh_buffer and ?s1.0 = init_buffer and ?s2.0 = hello_buffer]
  note c = id3_payload_length_prefix [where s = init_buffer and avail = "\<lambda>m. True"
      and data = "c_str ''abc''" and n = 3 and s' = ?s3 and ?id6.0 = ?rec]
  note p = id3_payload_length_prefix [where s = init_buffer and avail = "\<lambda>m. True"
      and description = "c_str ''spc_dumper''" and d = 10
      and data = "c_str ''abc''" and n = 3 and s' = ?s4]
  note g = id3_payload_length_prefix [where s = init_buffer and avail = "\<lambda>m. True"
      and field = "game sample_id6" and tag = "''TALB''" and n = 2 and s' = ?s5]
  have "unat (syncsafe_decode (take 4 (drop (unat (len init_buffer) + 4) (x hello_buffer)))) =
      5 + 2"
    and "unat (len hello_buffer) = 27" and "syncsafe_decode (take 4 (drop 6 (x hello_buffer))) = 17"
    using t w b(1) init_run hello_add_run by blast+
  moreover have "unat (syncsafe_decode (take 4 (drop (unat (len init_buffer) + 4) (x ?s3)))) =
      3 + 6"
    using c w b(2) abc_runs_init(1) by blast
  moreover have "unat (syncsafe_decode (take 4 (drop (unat (len init_buffer) + 4) (x ?s4)))) =
      1 + 10 + 1 + 3 + 1"
    using p w b(3) abc_runs_init(2) strlen_spc_dumper by blast
  moreover have "unat (syncsafe_decode (take 4 (drop (unat (len init_buffer) + 4) (x ?s5)))) =
      2 + 2"
    using g w b(4) field_runs(1,2) by blast
  moreover have "unat (syncsafe_decode (take 4 (drop (unat (len init_buffer) + 4) (x ?s3)))) =
      3 + 6"
    using c w b(5) field_runs(3,4) by blast
  ultimately show ?thesis
    using w init_run hello_add_run abc_runs_init strlen_spc_dumper field_runs
    by (intro exI [of _ ?s3] exI [of _ ?s4] exI [of _ ?s5]) simp
qed

text \<open>
  C6. With a fade window of length 0 and at least as many frames remaining as the chunk
  holds, \<open>fade_frames\<close> returns the chunk unchanged. The result \<open>Inr data\<close> also
  says that no division by zero was evaluated: that would be \<open>Inl DivByZero\<close>.
\<close>

theorem fade_frames_zero_window_noop:
  "frameCount \<le> framesRem \<longrightarrow> fade_frames data framesRem 0 frameCount = Inr data"
proof (cases "0 < framesRem - frameCount")
  case True
  then show ?thesis
    by (simp add: fade_frames_def)
next
  case False
  then have eq: "framesRem = frameCount"
    by (simp add: word_gt_0)
  have "fade_loop data frameCount frameCount 0 frameCount = Inr data"
    by (subst fade_loop.simps) simp
  moreover have "fade_loop data 0 0 0 0 = Inr data"
    by (subst fade_loop.simps) simp
  ultimately show ?thesis
    using eq by (simp add: fade_frames_def word_gt_0)
qed

theorem fade_frames_zero_window_noop_witness:
  "(2 :: 32 word) \<le> 7 \<and> fade_frames [1, 2, 3, 4] 7 0 2 = Inr [1, 2, 3, 4] \<and>
   (2 :: 32 word) \<le> 2 \<and> fade_frames [1, 2, 3, 4] 2 0 2 = Inr [1, 2, 3, 4]"
  using fade_frames_zero_window_noop [of 2 7 "[1, 2, 3, 4]"]
    fade_frames_zero_window_noop [of 2 2 "[1, 2, 3, 4]"]
  by simp

text \<open>
  C7. When the fade is already in progress on entry (frames remaining at most the fade
  window, chunk within the frames remaining), the loop starts at frame 0 with the window
  end \<open>f\<close> set to the frames remaining. On a chunk that holds its \<open>frameCount\<close> frames
  the function returns, the samples after the chunk are left alone, and for every frame
  \<open>k\<close> of the chunk the factor is the double of \<open>(framesRem - k) / framesFade\<close>, within
  the rounding of one division (relative error \<open>2 ^ - 53\<close>); both samples of the frame are
  their products with that factor, converted towards zero: less than \<open>1 + 2 ^ - 36\<close> away
  from the exact product and not larger in size (up to \<open>2 ^ - 36\<close>). For a window of 100
  and 50 frames remaining the multiplier of the first frame is the double
  \<open>50 / 100 = 0.5\<close>, and the sample pair \<open>(100, -100)\<close> becomes \<open>(50, -50)\<close>, the next
  ones \<open>(49, -49)\<close> and \<open>(48, -48)\<close>; with 25 frames remaining it becomes
  \<open>(25, -25)\<close>, with 29 it becomes \<open>(28, -28)\<close>, the double product being just below 29.
\<close>

theorem fade_frames_truncated_window:
  "(framesRem \<le> framesFade \<and> frameCount \<le> framesRem \<longrightarrow>
      fade_frames data framesRem framesFade frameCount =
        fade_loop data 0 framesRem framesFade frameCount) \<and>
   (framesRem \<le> framesFade \<and> frameCount \<le> framesRem \<and>
    2 * unat frameCount \<le> length data \<and> length data < 2 ^ 32 \<longrightarrow>
      (\<exists>out. fade_frames data framesRem framesFade frameCount = Inr out \<and>
         length out = length data \<and>
         (\<forall>j<length data. 2 * unat frameCount \<le> j \<longrightarrow> out ! j = data ! j) \<and>
         (\<forall>k<unat frameCount. \<exists>d.
            fade_mult framesRem (of_nat k) framesFade = Inr d \<and>
            \<bar>dbl_val d - spec_multiplier framesRem k framesFade\<bar> \<le>
              spec_multiplier framesRem k framesFade / 2 ^ 53 \<and>
            (\<forall>c<2.
               int16_of_dbl (dbl_mul (dbl_of_int16 (data ! (2 * k + c))) d) =
                 Inr (out ! (2 * k + c)) \<and>
               \<bar>of_int (sint (out ! (2 * k + c))) -
                  of_int (sint (data ! (2 * k + c))) * spec_multiplier framesRem k framesFade\<bar> <
                 1 + 1 / 2 ^ 36 \<and>
               \<bar>of_int (sint (out ! (2 * k + c)))\<bar> \<le>
                 \<bar>of_int (sint (data ! (2 * k + c)))\<bar> * spec_multiplier framesRem k framesFade +
                   1 / 2 ^ 36)))) \<and>
   (\<exists>d. fade_mult 50 0 100 = Inr d \<and> dbl_val d = 50 / 100) \<and>
   fade_frames [100, - 100] 50 100 1 = Inr [50, - 50] \<and>
   fade_frames [100, - 100] 25 100 1 = Inr [25, - 25] \<and>
   fade_frames [100, - 100] 29 100 1 = Inr [28, - 28] \<and>
   fade_frames [100, - 100, 100, - 100, 100, - 100] 50 100 3 =
     Inr [50, - 50, 49, - 49, 48, - 48]"
proof (intro conjI impI; (elim conjE)?)
  assume "framesRem \<le> framesFade" and "frameCount \<le> framesRem"
  then show "fade_frames data framesRem framesFade frameCount =
        fade_loop data 0 framesRem framesFade frameCount"
    by (rule truncated_start)
next
  assume "framesRem \<le> framesFade" and "frameCount \<le> framesRem"
    and "2 * unat frameCount \<le> length data" and "length data < 2 ^ 32"
  then show "\<exists>out. fade_frames data framesRem framesFade frameCount = Inr out \<and>
         length out = length data \<and>
         (\<forall>j<length data. 2 * unat frameCount \<le> j \<longrightarrow> out ! j = data ! j) \<and>
         (\<forall>k<unat frameCount. \<exists>d.
            fade_mult framesRem (of_nat k) framesFade = Inr d \<and>
            \<bar>dbl_val d - spec_multiplier framesRem k framesFade\<bar> \<le>
              spec_multiplier framesRem k framesFade / 2 ^ 53 \<and>
            (\<forall>c<2.
               int16_of_dbl (dbl_mul (dbl_of_int16 (data ! (2 * k + c))) d) =
                 Inr (out ! (2 * k + c)) \<and>
               \<bar>of_int (sint (out ! (2 * k + c))) -
                  of_int (sint (data ! (2 * k + c))) * spec_multiplier framesRem k framesFade\<bar> <
                 1 + 1 / 2 ^ 36 \<and>
               \<bar>of_int (sint (out ! (2 * k + c)))\<bar> \<le>
                 \<bar>of_int (sint (data ! (2 * k + c)))\<bar> * spec_multiplier framesRem k framesFade +
                   1 / 2 ^ 36))"
    by (rule truncated_frames)
next
  show "\<exists>d. fade_mult 50 0 100 = Inr d \<and> dbl_val d = 50 / 100"
    using half_mult half_val by simp
next
  show "fade_frames [100, - 100] 50 100 1 = Inr [50, - 50]"
    by (rule half_run)
next
  show "fade_frames [100, - 100] 25 100 1 = Inr [25, - 25]"
    by (rule fade_runs(1))
next
  show "fade_frames [100, - 100] 29 100 1 = Inr [28, - 28]"
    by (rule fade_runs(3))
next
  show "fade_frames [100, - 100, 100, - 100, 100, - 100] 50 100 3 =
     Inr [50, - 50, 49, - 49, 48, - 48]"
    by (rule fade_runs(2))
qed

theorem fade_frames_truncated_window_witness:
  "(50 :: 32 word) \<le> 100 \<and> (3 :: 32 word) \<le> 50 \<and>
   2 * unat (3 :: 32 word) \<le> length [100, - 100, 100, - 100, 100, - 100 :: 16 word] \<and>
   length [100, - 100, 100, - 100, 100, - 100 :: 16 word] < 2 ^ 32 \<and>
   (1 :: nat) < unat (3 :: 32 word) \<and>
   fade_frames [100, - 100, 100, - 100, 100, - 100] 50 100 3 =
     fade_loop [100, - 100, 100, - 100, 100, - 100] 0 50 100 3 \<and>
   fade_frames [100, - 100, 100, - 100, 100, - 100] 50 100 3 =
     Inr [50, - 50, 49, - 49, 48, - 48] \<and>
   spec_multiplier 50 1 100 = 49 / 100 \<and>
   (\<exists>d. fade_mult 50 1 100 = Inr d \<and> \<bar>dbl_val d - 49 / 100\<bar> \<le> 49 / 100 / 2 ^ 53 \<and>
      int16_of_dbl (dbl_mul (dbl_of_int16 100) d) = Inr 49 \<and>
      int16_of_dbl (dbl_mul (dbl_of_int16 (- 100)) d) = Inr (- 49))"
proof -
  let ?D = "[100, - 100, 100, - 100, 100, - 100 :: 16 word]"
  note t = fade_frames_truncated_window [of 50 100 3 ?D]
  have h: "(50 :: 32 word) \<le> 100" "(3 :: 32 word) \<le> 50"
    "2 * unat (3 :: 32 word) \<le> length ?D" "length ?D < 2 ^ 32" "(1 :: nat) < unat (3 :: 32 word)"
    by simp_all
  have m: "spec_multiplier 50 1 100 = 49 / 100"
    by (simp add: spec_multiplier_def)
  from t h have e: "fade_frames ?D 50 100 3 = fade_loop ?D 0 50 100 3"
    by blast
  from t have r: "fade_frames ?D 50 100 3 = Inr [50, - 50, 49, - 49, 48, - 48]"
    by blast
  from t h(1-4) obtain out where o: "fade_frames ?D 50 100 3 = Inr out"
    and f: "\<forall>k<unat (3 :: 32 word). \<exists>d.
            fade_mult 50 (of_nat k) 100 = Inr d \<and>
            \<bar>dbl_val d - spec_multiplier 50 k 100\<bar> \<le> spec_multiplier 50 k 100 / 2 ^ 53 \<and>
            (\<forall>c<2.
               int16_of_dbl (dbl_mul (dbl_of_int16 (?D ! (2 * k + c))) d) =
                 Inr (out ! (2 * k + c)) \<and>
               \<bar>of_int (sint (out ! (2 * k + c))) -
                  of_int (sint (?D ! (2 * k + c))) * spec_multiplier 50 k 100\<bar> <
                 1 + 1 / 2 ^ 36 \<and>
               \<bar>of_int (sint (out ! (2 * k + c)))\<bar> \<le>
                 \<bar>of_int (sint (?D ! (2 * k + c)))\<bar> * spec_multiplier 50 k 100 +
                   1 / 2 ^ 36)"
    by blast
  from o r have out: "out = [50, - 50, 49, - 49, 48, - 48]"
    by simp
  from f h(5) obtain d where d: "fade_mult 50 (of_nat 1) 100 = Inr d"
    and de: "\<bar>dbl_val d - spec_multiplier 50 1 100\<bar> \<le> spec_multiplier 50 1 100 / 2 ^ 53"
    and s: "\<forall>c<2. int16_of_dbl (dbl_mul (dbl_of_int16 (?D ! (2 * 1 + c))) d) =
                 Inr (out ! (2 * 1 + c))"
    by blast
  have c: "(0 :: nat) < 2" "(1 :: nat) < 2"
    by simp_all
  with s have "int16_of_dbl (dbl_mul (dbl_of_int16 (?D ! (2 * 1 + 0))) d) = Inr (out ! (2 * 1 + 0))"
    and "int16_of_dbl (dbl_mul (dbl_of_int16 (?D ! (2 * 1 + 1))) d) = Inr (out ! (2 * 1 + 1))"
    by blast+
  then have "int16_of_dbl (dbl_mul (dbl_of_int16 100) d) = Inr 49"
    and "int16_of_dbl (dbl_mul (dbl_of_int16 (- 100)) d) = Inr (- 49)"
    by (simp_all add: out)
  with d de have "\<exists>d. fade_mult 50 1 100 = Inr d \<and> \<bar>dbl_val d - 49 / 100\<bar> \<le> 49 / 100 / 2 ^ 53 \<and>
      int16_of_dbl (dbl_mul (dbl_of_int16 100) d) = Inr 49 \<and>
      int16_of_dbl (dbl_mul (dbl_of_int16 (- 100)) d) = Inr (- 49)"
    unfolding m by auto
  with h e r m show ?thesis
    by blast
qed

text \<open>
  C8. The claim says that a write that delivers fewer bytes than requested aborts the
  conversion with status 1. The code does not: \<open>main\<close> drops the values
  \<open>write_wav_header\<close>, \<open>write_frames\<close> and \<open>write_wav_footer\<close> return. On an
  output that accepts no byte at all, with ten frames to render and a tag to append, every
  write fails, nothing is written, and the exit status is 0. The stream of the model has
  no buffer, every \<^verbatim>\<open>fwrite\<close> reaches the device; behind the buffer of the C library
  a short write is reported by \<^verbatim>\<open>fwrite\<close> once the bytes no longer fit the buffer (a
  full chunk of 4096 frames does not), and otherwise by \<^verbatim>\<open>fclose\<close>, whose value
  \<open>main\<close> drops as well.
\<close>

theorem main_output_ignores_write_failure:
  "main_output const_decode () \<lparr>written = [], room = 0\<rparr> 10 5 hello_buffer =
     Inr (0, \<lparr>written = [], room = 0\<rparr>)"
proof -
  have "len hello_buffer \<noteq> 10"
    by (simp add: hello_buffer_def)
  then show ?thesis
    by (simp add: main_output_def then_do_def write_wav_header_full write_wav_footer_full
        render_loop_full)
qed

text \<open>
  C9. For a tag buffer whose used length is exactly 10, \<open>write_wav_footer\<close> leaves
  the file as it is: no byte is written. For a used length above 10 (within the buffer, on
  a file that accepts the bytes) it appends the magic \<open>ID3 \<close>, the used length as a
  32-bit little-endian integer, and the used bytes of the buffer.
\<close>

theorem write_wav_footer_omission:
  "(len id3 = 10 \<longrightarrow> write_wav_footer f id3 = Inr (1, f)) \<and>
   (10 < unat (len id3) \<and> unat (len id3) \<le> length (x id3) \<and> 8 + unat (len id3) \<le> room f \<longrightarrow>
      (\<exists>f'. write_wav_footer f id3 = Inr (1, f') \<and>
         written f' = written f @ bytes_of ''ID3 '' @ pack_uint32le (len id3) @
                        take (unat (len id3)) (x id3) \<and>
         uint32le_decode (pack_uint32le (len id3)) = len id3))"
proof (intro conjI impI; (elim conjE)?)
  assume "len id3 = 10"
  then show "write_wav_footer f id3 = Inr (1, f)"
    by (simp add: write_wav_footer_def)
next
  assume h: "10 < unat (len id3)" "unat (len id3) \<le> length (x id3)"
    "8 + unat (len id3) \<le> room f"
  from h(1) have "len id3 \<noteq> 10"
    by auto
  from write_wav_footer_ok [OF this h(2,3)]
  show "\<exists>f'. write_wav_footer f id3 = Inr (1, f') \<and>
         written f' = written f @ bytes_of ''ID3 '' @ pack_uint32le (len id3) @
                        take (unat (len id3)) (x id3) \<and>
         uint32le_decode (pack_uint32le (len id3)) = len id3"
    by (simp add: written_emit uint32le_decode_pack)
qed

theorem write_wav_footer_omission_witness:
  "write_wav_footer \<lparr>written = [], room = 64\<rparr>
     init_buffer =
     Inr (1, \<lparr>written = [], room = 64\<rparr>) \<and>
   (\<exists>f'. write_wav_footer \<lparr>written = [], room = 64\<rparr>
        hello_buffer = Inr (1, f') \<and>
      written f' = [73, 68, 51, 32, 27, 0, 0, 0,
                    73, 68, 51, 4, 0, 0, 0, 0, 0, 17,
                    84, 73, 84, 50, 0, 0, 0, 7, 0, 0, 3, 72, 101, 108, 108, 111, 0])"
  using write_wav_footer_omission [of
      init_buffer
      "\<lparr>written = [], room = 64\<rparr>"]
    write_wav_footer_omission [of
      hello_buffer
      "\<lparr>written = [], room = 64\<rparr>"]
  by (simp add: bytes_of_def pack_uint32le_def init_buffer_def hello_buffer_def)

text \<open>
  C10. When the dumper field is not empty, the \<open>TXXX\<close> frame \<open>main\<close> appends
  counts and embeds \<open>strnlen (game, 256)\<close> bytes of the dumper field: the payload-length
  prefix decodes to \<open>1 + 10 + 1 + g + 1\<close> and the \<open>g\<close> bytes after the description
  \<open>spc_dumper\<close> and its terminator are the first \<open>g\<close> bytes of the dumper field,
  where \<open>g\<close> is the length of the game field. For some metadata (game of length 2,
  dumper of length 4) the embedded length, 2, differs from the length of the dumper text.
\<close>

theorem dumper_frame_uses_game_length:
  "(length (x s) = unat (a s) \<and> 10 \<le> unat (len s) \<and>
    strnlen (dumper id6) 256 = Inr n \<and> n \<noteq> 0 \<and> strnlen (game id6) 256 = Inr g \<and>
    tag_dumper avail s id6 = Some (Inr s') \<longrightarrow>
      take 4 (drop (unat (len s)) (x s')) = bytes_of ''TXXX'' \<and>
      unat (syncsafe_decode (take 4 (drop (unat (len s) + 4) (x s')))) = 1 + 10 + 1 + g + 1 \<and>
      take g (drop (unat (len s) + 22) (x s')) = take g (dumper id6) \<and>
      unat (len s') = unat (len s) + 10 + (1 + 10 + 1 + g + 1)) \<and>
   (\<exists>id6 s'. strnlen (dumper id6) 256 = Inr 4 \<and> strnlen (game id6) 256 = Inr 2 \<and>
      tag_dumper (\<lambda>m. True) init_buffer id6 = Some (Inr s') \<and>
      unat (syncsafe_decode (take 4 (drop (unat (len init_buffer) + 4) (x s')))) =
        1 + 10 + 1 + 2 + 1 \<and>
      unat (len s') = unat (len init_buffer) + 10 + (1 + 10 + 1 + 2 + 1))"
proof (intro conjI impI; (elim conjE)?)
  assume h: "length (x s) = unat (a s)" "10 \<le> unat (len s)"
    "strnlen (dumper id6) 256 = Inr n" "n \<noteq> 0" "strnlen (game id6) 256 = Inr g"
    "tag_dumper avail s id6 = Some (Inr s')"
  note d = dumper_frame [OF h]
  show "take 4 (drop (unat (len s)) (x s')) = bytes_of ''TXXX''"
    by (rule d(1))
  show "unat (syncsafe_decode (take 4 (drop (unat (len s) + 4) (x s')))) = 1 + 10 + 1 + g + 1"
    by (rule d(2))
  show "take g (drop (unat (len s) + 22) (x s')) = take g (dumper id6)"
    by (rule d(3))
  show "unat (len s') = unat (len s) + 10 + (1 + 10 + 1 + g + 1)"
    by (rule d(4))
next
  have w: "length (x init_buffer) = unat (a init_buffer)" "10 \<le> unat (len init_buffer)"
    by (simp_all add: init_buffer_def)
  have nz: "(4 :: nat) \<noteq> 0"
    by simp
  note d = dumper_frame [OF w sample_run(1) nz sample_run(2,3)]
  show "\<exists>id6 s'. strnlen (dumper id6) 256 = Inr 4 \<and> strnlen (game id6) 256 = Inr 2 \<and>
      tag_dumper (\<lambda>m. True) init_buffer id6 = Some (Inr s') \<and>
      unat (syncsafe_decode (take 4 (drop (unat (len init_buffer) + 4) (x s')))) =
        1 + 10 + 1 + 2 + 1 \<and>
      unat (len s') = unat (len init_buffer) + 10 + (1 + 10 + 1 + 2 + 1)"
    using sample_run d(2,4) by blast
qed

theorem dumper_frame_uses_game_length_witness:
  "length (x init_buffer) = unat (a init_buffer) \<and> 10 \<le> unat (len init_buffer) \<and>
   strnlen (dumper sample_id6) 256 = Inr 4 \<and> (4 :: nat) \<noteq> 0 \<and>
   strnlen (game sample_id6) 256 = Inr 2 \<and>
   tag_dumper (\<lambda>m. True) init_buffer sample_id6 = Some (Inr dumper_buffer) \<and>
   take 4 (drop (unat (len init_buffer)) (x dumper_buffer)) = bytes_of ''TXXX'' \<and>
   unat (syncsafe_decode (take 4 (drop (unat (len init_buffer) + 4) (x dumper_buffer)))) = 15 \<and>
   take 2 (drop (unat (len init_buffer) + 22) (x dumper_buffer)) = take 2 (dumper sample_id6) \<and>
   take 2 (dumper sample_id6) = bytes_of ''wx'' \<and>
   unat (len dumper_buffer) = 35"
proof -
  have w: "length (x init_buffer) = unat (a init_buffer)" "10 \<le> unat (len init_buffer)"
    by (simp_all add: init_buffer_def)
  have nz: "(4 :: nat) \<noteq> 0"
    by simp
  have l: "unat (len init_buffer) = 10"
    by (simp add: init_buffer_def)
  have k: "take 2 (dumper sample_id6) = bytes_of ''wx''"
    by (simp add: sample_id6_def c_str_def bytes_of_def)
  from dumper_frame_uses_game_length [of init_buffer sample_id6 4 2 "\<lambda>m. True" dumper_buffer]
    w sample_run nz
  have "take 4 (drop (unat (len init_buffer)) (x dumper_buffer)) = bytes_of ''TXXX'' \<and>
      unat (syncsafe_decode (take 4 (drop (unat (len init_buffer) + 4) (x dumper_buffer)))) =
        1 + 10 + 1 + 2 + 1 \<and>
      take 2 (drop (unat (len init_buffer) + 22) (x dumper_buffer)) = take 2 (dumper sample_id6) \<and>
      unat (len dumper_buffer) = unat (len init_buffer) + 10 + (1 + 10 + 1 + 2 + 1)"
    by blast
  then show ?thesis
    using w sample_run k l by simp
qed

end
